theory Spec2Isabelle
  imports Main "HOL-Library.Word" "HOL-Library.Multiset"
begin

unbundle bit_operations_syntax

section \<open>The object pool of \<open>slick/object_pool.h\<close>\<close>

text \<open>
  The class \<open>slick::ObjectPool<T>\<close> is embedded as a record of its data members and one
  HOL function for each member function. The operations are modelled as they run when
  no other thread interferes between two of their atomic accesses: a
  \<open>compare_exchange_weak\<close> then finds the value it loaded and is taken to succeed
  (a spurious failure only repeats the same iteration). Calls of other threads between
  the CAS of \<open>consume\<close> and the loads that follow it are modelled apart, by \<open>istep\<close>.

  \<^item> \<open>uint64_t\<close> and \<open>uint32_t\<close> are \<open>64 word\<close> and \<open>32 word\<close>; a \<open>uint32_t\<close> operand of
    a 64-bit operation is promoted with \<open>ucast\<close>.
  \<^item> A \<open>T*\<close> is the \<open>intptr_t\<close> value of the address, an \<open>int\<close>; \<open>nullptr\<close> is \<open>0\<close>.
  \<^item> \<open>throw std::runtime_error\<close> and a failing \<open>assert\<close> are values of \<open>error\<close>.
  \<^item> What the allocator returns for \<open>new T[size_m]\<close> and \<open>new T()\<close> is an argument of the
    function that calls it.
  \<^item> A data member \<open>x_\<close> of the source is the field \<open>x_m\<close> here, and the members \<open>size\<close>
    of \<open>slot\<close> and \<open>size_\<close> of \<open>reserved_info\<close> are \<open>slot_size\<close> and \<open>rsize_m\<close>.
  \<^item> \<open>reset\<close> and the destructor are not part of the model.
\<close>

type_synonym u64 = "64 word"
type_synonym u32 = "32 word"
type_synonym ptr = int

datatype error =
  Assertion_failed
  | Runtime_error u32 u32  \<comment> \<open>"required size n > pool size size_m"\<close>

text \<open>\<open>struct slot\<close>: a fresh slot is \<open>{UINT64_MAX, 1}\<close>.\<close>

record slot =
  data_index :: u64
  slot_size :: u32

definition UINT64_MAX :: u64 where
  "UINT64_MAX = - 1"

definition fresh_slot :: slot where
  "fresh_slot = \<lparr>data_index = UINT64_MAX, slot_size = 1\<rparr>"

text \<open>
  \<open>struct reserved_info\<close>; its \<open>uint_fast32_t\<close> member is only ever assigned a
  \<open>uint32_t\<close>.
\<close>

record reserved_info =
  index_m :: u64
  rsize_m :: u32

text \<open>The data members of the class. \<open>buffer_m\<close> is the address of \<open>buffer_m[0]\<close>.\<close>

record pool =
  reserved_m :: reserved_info
  consumed_m :: u64
  size_m :: u32
  mask_m :: u32
  buffer_m :: ptr
  lower_bound_m :: int
  upper_bound_m :: int
  free_objects_m :: "ptr list"
  control_m :: "slot list"

subsection \<open>\<open>reserve\<close> and \<open>publish\<close>\<close>

text \<open>
  \<open>reserve(n)\<close>: the body of the \<open>do ... while\<close> runs once, its CAS succeeds. The result
  is the reserved index and the pool after the CAS and, when the reservation wrapped,
  after the store of the wrap-skip record at \<open>control_m[reserved.index_m & mask_m]\<close>.
\<close>

definition reserve :: "pool \<Rightarrow> u32 \<Rightarrow> error + (u64 \<times> pool)" where
  "reserve s n =
     (if n > size_m s then Inl (Runtime_error n (size_m s))
      else
        let reserved = reserved_m s;
            index = index_m reserved;
            idx = index AND ucast (mask_m s)
        in if idx + ucast n > ucast (size_m s)
           then
             let index' = index + (ucast (size_m s) - idx);
                 next = \<lparr>index_m = index' + ucast n, rsize_m = n\<rparr>;
                 s1 = s\<lparr>reserved_m := next\<rparr>;
                 s2 = s1\<lparr>control_m := (control_m s1)
                        [unat (index_m reserved AND ucast (mask_m s1)) :=
                           \<lparr>data_index = index', slot_size = n\<rparr>]\<rparr>
             in Inr (index', s2)
           else
             let next = \<lparr>index_m = index + ucast n, rsize_m = n\<rparr>
             in Inr (index, s\<lparr>reserved_m := next\<rparr>))"

definition publish :: "pool \<Rightarrow> u64 \<Rightarrow> u32 \<Rightarrow> pool" where
  "publish s index n =
     s\<lparr>control_m := (control_m s)
          [unat (index AND ucast (mask_m s)) := \<lparr>data_index = index, slot_size = n\<rparr>]\<rparr>"

subsection \<open>\<open>consume\<close>\<close>

text \<open>
  One pass through the body of \<open>while (true)\<close>: \<open>Inl\<close> is a \<open>return\<close> (the pair returned
  and the pool), \<open>Inr\<close> is a \<open>continue\<close> with the pool as the pass leaves it.
\<close>

definition consume_body :: "pool \<Rightarrow> ((ptr \<times> u32) \<times> pool) + pool" where
  "consume_body s =
     (let current_index = consumed_m s;
          current = current_index AND ucast (mask_m s);
          current_slot = control_m s ! unat current;
          stored_index = data_index current_slot
      in if stored_index \<noteq> UINT64_MAX \<and> index_m (reserved_m s) < stored_index
         then Inr (s\<lparr>consumed_m := 0\<rparr>)
         else if stored_index = UINT64_MAX \<or> stored_index < current_index
         then Inl ((0, 0), s)
         else if stored_index > current_index \<and> stored_index AND ucast (mask_m s) \<noteq> current
         then Inr (s\<lparr>consumed_m := stored_index\<rparr>)
         else
           let next_index = stored_index + ucast (slot_size current_slot)
           in Inl ((free_objects_m s ! unat (current_index AND ucast (mask_m s)),
                    slot_size current_slot),
                   s\<lparr>consumed_m := next_index\<rparr>))"

text \<open>The loop may not return: \<open>None\<close> is a run that never leaves it.\<close>

partial_function (option) consume :: "pool \<Rightarrow> ((ptr \<times> u32) \<times> pool) option" where
  "consume s = (case consume_body s of Inl r \<Rightarrow> Some r | Inr s' \<Rightarrow> consume s')"

subsection \<open>\<open>allocate\<close> and \<open>free\<close>\<close>

text \<open>
  \<open>allocate\<close>: \<open>new_T\<close> is the address that \<open>new T()\<close> returns should the pool be
  exhausted.
\<close>

definition allocate :: "ptr \<Rightarrow> pool \<Rightarrow> (error + (ptr \<times> pool)) option" where
  "allocate new_T s =
     (case consume s of
        None \<Rightarrow> None
      | Some ((obj, sz), s') \<Rightarrow>
          if obj = 0 then Some (Inr (new_T, s'))
          else if sz \<noteq> 1 then Some (Inl Assertion_failed)
          else Some (Inr (obj, s')))"

text \<open>
  \<open>free\<close>: the second component of the result is the object that \<open>delete obj\<close> destroys;
  \<open>delete\<close> of a null pointer destroys nothing.
\<close>

definition delete_T :: "ptr \<Rightarrow> ptr option" where
  "delete_T obj = (if obj = 0 then None else Some obj)"

definition free :: "ptr \<Rightarrow> pool \<Rightarrow> error + (pool \<times> ptr option)" where
  "free obj s =
     (let o' = obj
      in if o' \<ge> lower_bound_m s \<and> o' \<le> upper_bound_m s
         then
           (case reserve s 1 of
              Inl e \<Rightarrow> Inl e
            | Inr (index, s1) \<Rightarrow>
                let s2 = s1\<lparr>free_objects_m := (free_objects_m s1)
                           [unat (index AND ucast (mask_m s1)) := obj]\<rparr>
                in Inr (publish s2 index 1, None))
         else Inr (s, delete_T obj))"

subsection \<open>The constructor\<close>

text \<open>
  The seeding loop \<open>for (uint32_t i = 0; i < size_m; ++i)\<close>, from \<open>i\<close> on; \<open>n\<close> is \<open>size_m\<close>,
  which the loop never changes, and \<open>tsz\<close> is \<open>sizeof(T)\<close>, so that \<open>&buffer_m[i]\<close> is
  \<open>buffer_m + i * tsz\<close>.
\<close>

function seed :: "nat \<Rightarrow> nat \<Rightarrow> nat \<Rightarrow> pool \<Rightarrow> error + pool" where
  "seed tsz n i s =
     (if i < n
      then
        (case reserve s 1 of
           Inl e \<Rightarrow> Inl e
         | Inr (index, s1) \<Rightarrow>
             let s2 = s1\<lparr>free_objects_m := (free_objects_m s1)
                        [unat (index AND ucast (mask_m s1)) := buffer_m s1 + int i * int tsz]\<rparr>
             in seed tsz n (Suc i) (publish s2 index 1))
      else Inr s)"
  by pat_completeness auto
termination
  by (relation "measure (\<lambda>(tsz, n, i, s). n - i)") auto

text \<open>
  \<open>ObjectPool(size)\<close>. \<open>buf\<close> is the address of the array that \<open>new T[size_m]\<close> returns.
  The member initialisers run first: the two atomics are value-initialised
  (\<open>reserved_m = {0, 0}\<close>, \<open>consumed_m = 0\<close>), \<open>new slot[size_m]\<close> default-constructs every
  slot, and \<open>new T*[size_m]\<close> leaves its elements indeterminate (null here; the seeding loop
  overwrites each of them before anything reads it). Then the \<open>assert\<close>, the loop and the
  two bounds.
\<close>

definition ObjectPool :: "nat \<Rightarrow> ptr \<Rightarrow> u32 \<Rightarrow> error + pool" where
  "ObjectPool tsz buf sz =
     (let s = \<lparr>reserved_m = \<lparr>index_m = 0, rsize_m = 0\<rparr>,
               consumed_m = 0,
               size_m = sz,
               mask_m = sz - 1,
               buffer_m = buf,
               lower_bound_m = 0,
               upper_bound_m = 0,
               free_objects_m = replicate (unat sz) 0,
               control_m = replicate (unat sz) fresh_slot\<rparr>
      in if \<not> (sz \<noteq> 0 \<and> sz AND (sz - 1) = 0) then Inl Assertion_failed
         else
           (case seed tsz (unat (size_m s)) 0 s of
              Inl e \<Rightarrow> Inl e
            | Inr s' \<Rightarrow>
                Inr (s'\<lparr>lower_bound_m := buffer_m s' + 0 * int tsz,
                        upper_bound_m := buffer_m s' + int (unat (mask_m s')) * int tsz\<rparr>)))"


declare consume.simps [code]

declare seed.simps [simp del]

section \<open>Properties\<close>

subsection \<open>Pool states\<close>

text \<open>A capacity is a power of two.\<close>

definition is_pow2 :: "u32 \<Rightarrow> bool" where
  "is_pow2 sz \<longleftrightarrow> (\<exists>k. unat sz = 2 ^ k)"

text \<open>
  A well-formed pool: \<open>size_m\<close> passes the constructor's assertion, \<open>mask_m\<close> is
  \<open>size_m - 1\<close>, and the two arrays have \<open>size_m\<close> elements, as the constructor allocates
  them.
\<close>

definition pool_wf :: "pool \<Rightarrow> bool" where
  "pool_wf s \<longleftrightarrow>
     size_m s \<noteq> 0 \<and> size_m s AND (size_m s - 1) = 0 \<and>
     mask_m s = size_m s - 1 \<and>
     length (free_objects_m s) = unat (size_m s) \<and>
     length (control_m s) = unat (size_m s)"

text \<open>
  No slot is ahead of the producer: a slot holds the sentinel or an index that
  \<open>reserve\<close> has handed out. \<open>reserve\<close> and \<open>publish\<close> keep it so until the producer
  index wraps around \<open>2 ^ 64\<close>; in such a state the reset test of \<open>consume\<close> is false.
\<close>

definition slots_behind :: "pool \<Rightarrow> bool" where
  "slots_behind s \<longleftrightarrow>
     (\<forall>i < length (control_m s).
        data_index (control_m s ! i) = UINT64_MAX \<or>
        data_index (control_m s ! i) \<le> index_m (reserved_m s))"

text \<open>
  Two states of a pool of four objects of eight bytes at address 4096: as constructed,
  and after four \<open>allocate\<close>, three \<open>free\<close> and three more \<open>allocate\<close>, when the producer
  stands on the last slot of the ring.
\<close>

definition pool4 :: pool where
  "pool4 = \<lparr>reserved_m = \<lparr>index_m = 4, rsize_m = 1\<rparr>, consumed_m = 0,
     size_m = 4, mask_m = 3, buffer_m = 4096, lower_bound_m = 4096, upper_bound_m = 4120,
     free_objects_m = [4096, 4104, 4112, 4120],
     control_m = [\<lparr>data_index = 0, slot_size = 1\<rparr>, \<lparr>data_index = 1, slot_size = 1\<rparr>,
                  \<lparr>data_index = 2, slot_size = 1\<rparr>, \<lparr>data_index = 3, slot_size = 1\<rparr>]\<rparr>"

definition pool4_last :: pool where
  "pool4_last = \<lparr>reserved_m = \<lparr>index_m = 7, rsize_m = 1\<rparr>, consumed_m = 7,
     size_m = 4, mask_m = 3, buffer_m = 4096, lower_bound_m = 4096, upper_bound_m = 4120,
     free_objects_m = [4096, 4104, 4112, 4120],
     control_m = [\<lparr>data_index = 4, slot_size = 1\<rparr>, \<lparr>data_index = 5, slot_size = 1\<rparr>,
                  \<lparr>data_index = 6, slot_size = 1\<rparr>, \<lparr>data_index = 3, slot_size = 1\<rparr>]\<rparr>"

text \<open>
  \<open>pool4_last\<close> after a \<open>reserve(2)\<close>, which does not fit on the last slot: the producer
  has skipped to index 8 and left a wrap-skip record on slot 3.
\<close>

definition pool4_skip :: pool where
  "pool4_skip = \<lparr>reserved_m = \<lparr>index_m = 10, rsize_m = 2\<rparr>, consumed_m = 7,
     size_m = 4, mask_m = 3, buffer_m = 4096, lower_bound_m = 4096, upper_bound_m = 4120,
     free_objects_m = [4096, 4104, 4112, 4120],
     control_m = [\<lparr>data_index = 4, slot_size = 1\<rparr>, \<lparr>data_index = 5, slot_size = 1\<rparr>,
                  \<lparr>data_index = 6, slot_size = 1\<rparr>, \<lparr>data_index = 8, slot_size = 2\<rparr>]\<rparr>"

text \<open>
  The three stores by which the constructor and \<open>free\<close> put a pointer into the ring of
  a well-formed pool: the producer index moves on by one, the pointer goes to
  \<open>free_objects_m[index & mask_m]\<close> and the slot is published.
\<close>

definition put :: "ptr \<Rightarrow> pool \<Rightarrow> pool" where
  "put p s =
     (let index = index_m (reserved_m s); j = unat index mod unat (size_m s)
      in s\<lparr>reserved_m := \<lparr>index_m = index + 1, rsize_m = 1\<rparr>,
           free_objects_m := (free_objects_m s)[j := p],
           control_m := (control_m s)[j := \<lparr>data_index = index, slot_size = 1\<rparr>]\<rparr>)"


subsection \<open>Runs of a pool\<close>

text \<open>
  The array \<open>buffer_m\<close> of \<open>sz\<close> objects of \<open>tsz = sizeof(T)\<close> bytes occupies the addresses
  from \<open>buf\<close> up to \<open>buf + sz * tsz\<close>. No object has size 0, and none lies on the null
  address.
\<close>

definition layout_ok :: "nat \<Rightarrow> ptr \<Rightarrow> u32 \<Rightarrow> bool" where
  "layout_ok tsz buf sz \<longleftrightarrow> 0 < tsz \<and> (0 < buf \<or> buf + int (unat sz) * int tsz \<le> 0)"

text \<open>The ownership test of \<open>free\<close>.\<close>

definition in_bounds :: "pool \<Rightarrow> ptr \<Rightarrow> bool" where
  "in_bounds s p \<longleftrightarrow> lower_bound_m s \<le> p \<and> p \<le> upper_bound_m s"

text \<open>
  A call of the public interface: \<open>Allocate a\<close> is \<open>allocate()\<close> where \<open>new T()\<close> would
  return \<open>a\<close>, \<open>Free p\<close> is \<open>free(p)\<close>. A run carries the pool and the pointers that
  \<open>allocate\<close> has returned and \<open>free\<close> has not yet taken back; it is \<open>None\<close> when a call
  does not return, fails an assertion or throws.
\<close>

datatype op = Allocate ptr | Free ptr

fun step :: "op \<Rightarrow> pool \<times> ptr list \<Rightarrow> (pool \<times> ptr list) option" where
  "step (Allocate a) (s, held) =
     (case allocate a s of
        Some (Inr (p, s')) \<Rightarrow> Some (s', p # held)
      | _ \<Rightarrow> None)"
| "step (Free p) (s, held) =
     (case free p s of
        Inr (s', d) \<Rightarrow> Some (s', remove1 p held)
      | Inl e \<Rightarrow> None)"

fun run :: "pool \<times> ptr list \<Rightarrow> op list \<Rightarrow> (pool \<times> ptr list) option" where
  "run st [] = Some st"
| "run st (x # xs) = (case step x st of None \<Rightarrow> None | Some st' \<Rightarrow> run st' xs)"

text \<open>
  The calls a client may make: \<open>free\<close> only of a pointer it holds, and \<open>new T()\<close> returns
  neither null nor the address of a live object (one of \<open>buffer_m\<close>, or one held). Nothing
  is asked of the calls that would follow one that does not return.
\<close>

fun valid_ops :: "pool \<times> ptr list \<Rightarrow> op list \<Rightarrow> bool" where
  "valid_ops st [] = True"
| "valid_ops st (x # xs) =
     ((case x of
         Allocate a \<Rightarrow> a \<noteq> 0 \<and> \<not> in_bounds (fst st) a \<and> a \<notin> set (snd st)
       | Free p \<Rightarrow> p \<in> set (snd st)) \<and>
      (case step x st of None \<Rightarrow> True | Some st' \<Rightarrow> valid_ops st' xs))"

text \<open>
  The cursors and the slots of a pool whose reservations all had width 1: the consumer
  is not past the producer, and slot \<open>i\<close> holds a width 1 and an index below the producer
  index that lies on slot \<open>i\<close>.
\<close>

definition cursor_inv :: "pool \<Rightarrow> bool" where
  "cursor_inv s \<longleftrightarrow>
     pool_wf s \<and> unat (consumed_m s) \<le> unat (index_m (reserved_m s)) \<and>
     (\<forall>i < unat (size_m s).
        unat (data_index (control_m s ! i)) mod unat (size_m s) = i \<and>
        unat (data_index (control_m s ! i)) < unat (index_m (reserved_m s)) \<and>
        slot_size (control_m s ! i) = 1)"

text \<open>The ring holds pointers into \<open>buffer_m\<close> only, and null is not one of them.\<close>

definition ptrs_inv :: "pool \<Rightarrow> bool" where
  "ptrs_inv s \<longleftrightarrow>
     \<not> in_bounds s 0 \<and> (\<forall>i < unat (size_m s). in_bounds s (free_objects_m s ! i))"

text \<open>
  A slot is readable when it holds a published index, not below the consumer cursor,
  that lies on this slot. The published entries of the ring are the pointers of the
  readable slots.
\<close>

definition readable :: "pool \<Rightarrow> nat \<Rightarrow> bool" where
  "readable s i \<longleftrightarrow>
     data_index (control_m s ! i) \<noteq> UINT64_MAX \<and>
     consumed_m s \<le> data_index (control_m s ! i) \<and>
     unat (data_index (control_m s ! i) AND ucast (mask_m s)) = i"

definition published :: "pool \<Rightarrow> ptr list" where
  "published s = map (\<lambda>i. free_objects_m s ! i) (filter (readable s) [0 ..< unat (size_m s)])"

text \<open>
  The pooled objects along a run of valid calls, with \<open>held\<close> the pointers handed out:
  the producer is at most one lap ahead of the consumer, every slot holds the latest
  index handed out for it, and the published entries together with the held pointers
  inside the bounds are the addresses \<open>&buffer_m[k]\<close>, each once.
\<close>

definition storage :: "nat \<Rightarrow> pool \<Rightarrow> ptr list" where
  "storage tsz s = map (\<lambda>k. buffer_m s + int k * int tsz) [0 ..< unat (size_m s)]"

definition exact_inv :: "nat \<Rightarrow> pool \<Rightarrow> ptr list \<Rightarrow> bool" where
  "exact_inv tsz s held \<longleftrightarrow>
     cursor_inv s \<and> ptrs_inv s \<and> 0 < tsz \<and>
     lower_bound_m s = buffer_m s \<and>
     upper_bound_m s = buffer_m s + (int (unat (size_m s)) - 1) * int tsz \<and>
     unat (index_m (reserved_m s)) \<le> unat (consumed_m s) + unat (size_m s) \<and>
     (\<forall>i < unat (size_m s).
        unat (index_m (reserved_m s)) \<le> unat (data_index (control_m s ! i)) + unat (size_m s)) \<and>
     mset (published s) + mset (filter (in_bounds s) held) = mset (storage tsz s) \<and>
     length (published s) = unat (index_m (reserved_m s)) - unat (consumed_m s) \<and>
     distinct held"

subsection \<open>Calls that overlap\<close>

text \<open>
  In \<open>consume\<close> the CAS on \<open>consumed_m\<close> and the loads of
  \<open>free_objects_m[current_index & mask_m]\<close> and \<open>current_slot->size\<close> in the \<open>return\<close> that
  follows it are separate accesses, and calls of other threads may run between them.
  \<open>Claimed c\<close> is a thread that has won the CAS with \<open>current_index = c\<close> and has these
  loads still to do; \<open>Returned r\<close> is a thread whose \<open>consume\<close> returns \<open>r\<close> without a CAS.

  \<open>consume_cas_body\<close> is the pass through the loop of \<open>consume\<close> up to the CAS,
  \<open>consume_load\<close> the loads after it, and \<open>allocate_finish\<close> the rest of \<open>allocate\<close>.
\<close>

datatype consume_point = Returned "ptr \<times> u32" | Claimed u64

definition consume_cas_body :: "pool \<Rightarrow> (consume_point \<times> pool) + pool" where
  "consume_cas_body s =
     (let current_index = consumed_m s;
          current = current_index AND ucast (mask_m s);
          current_slot = control_m s ! unat current;
          stored_index = data_index current_slot
      in if stored_index \<noteq> UINT64_MAX \<and> index_m (reserved_m s) < stored_index
         then Inr (s\<lparr>consumed_m := 0\<rparr>)
         else if stored_index = UINT64_MAX \<or> stored_index < current_index
         then Inl (Returned (0, 0), s)
         else if stored_index > current_index \<and> stored_index AND ucast (mask_m s) \<noteq> current
         then Inr (s\<lparr>consumed_m := stored_index\<rparr>)
         else
           let next_index = stored_index + ucast (slot_size current_slot)
           in Inl (Claimed current_index, s\<lparr>consumed_m := next_index\<rparr>))"

partial_function (option) consume_cas :: "pool \<Rightarrow> (consume_point \<times> pool) option" where
  "consume_cas s = (case consume_cas_body s of Inl r \<Rightarrow> Some r | Inr s' \<Rightarrow> consume_cas s')"

declare consume_cas.simps [code]

definition consume_load :: "consume_point \<Rightarrow> pool \<Rightarrow> ptr \<times> u32" where
  "consume_load cp s =
     (case cp of
        Returned r \<Rightarrow> r
      | Claimed current_index \<Rightarrow>
          (free_objects_m s ! unat (current_index AND ucast (mask_m s)),
           slot_size (control_m s ! unat (current_index AND ucast (mask_m s)))))"

definition allocate_finish :: "ptr \<Rightarrow> consume_point \<Rightarrow> pool \<Rightarrow> error + ptr" where
  "allocate_finish new_T cp s =
     (case consume_load cp s of
        (obj, sz) \<Rightarrow>
          if obj = 0 then Inr new_T
          else if sz \<noteq> 1 then Inl Assertion_failed
          else Inr obj)"

text \<open>
  A schedule of two kinds of thread: those whose calls run undisturbed (\<open>Call\<close>), and
  one that runs \<open>allocate\<close> up to the CAS of \<open>consume\<close> (\<open>Claim\<close>) and, after calls of the
  others, the rest of it (\<open>Finish a\<close>, with \<open>a\<close> what \<open>new T()\<close> would return). The state
  is the pool, the pointers handed out and not yet freed, and the point at which the
  second thread waits.
\<close>

datatype event = Call op | Claim | Finish ptr

fun istep :: "event \<Rightarrow> pool \<times> ptr list \<times> consume_point option
    \<Rightarrow> (pool \<times> ptr list \<times> consume_point option) option" where
  "istep (Call x) (s, held, w) =
     (case step x (s, held) of None \<Rightarrow> None | Some (s', held') \<Rightarrow> Some (s', held', w))"
| "istep Claim (s, held, None) =
     (case consume_cas s of None \<Rightarrow> None | Some (cp, s') \<Rightarrow> Some (s', held, Some cp))"
| "istep Claim (s, held, Some cp) = None"
| "istep (Finish a) (s, held, Some cp) =
     (case allocate_finish a cp s of Inl e \<Rightarrow> None | Inr p \<Rightarrow> Some (s, p # held, None))"
| "istep (Finish a) (s, held, None) = None"

fun irun :: "pool \<times> ptr list \<times> consume_point option \<Rightarrow> event list
    \<Rightarrow> (pool \<times> ptr list \<times> consume_point option) option" where
  "irun st [] = Some st"
| "irun st (e # es) = (case istep e st of None \<Rightarrow> None | Some st' \<Rightarrow> irun st' es)"

text \<open>The schedules of valid calls: as \<open>valid_ops\<close>, for each call when it is made.\<close>

fun valid_events :: "pool \<times> ptr list \<times> consume_point option \<Rightarrow> event list \<Rightarrow> bool" where
  "valid_events st [] = True"
| "valid_events st (e # es) =
     ((case e of
         Call (Allocate a) \<Rightarrow> a \<noteq> 0 \<and> \<not> in_bounds (fst st) a \<and> a \<notin> set (fst (snd st))
       | Call (Free p) \<Rightarrow> p \<in> set (fst (snd st))
       | Claim \<Rightarrow> True
       | Finish a \<Rightarrow> a \<noteq> 0 \<and> \<not> in_bounds (fst st) a \<and> a \<notin> set (fst (snd st))) \<and>
      (case istep e st of None \<Rightarrow> True | Some st' \<Rightarrow> valid_events st' es))"

text \<open>
  A pool of two objects of eight bytes at address 4096, as constructed, and a schedule
  on it: one thread wins the CAS of its \<open>allocate\<close>; another calls \<open>allocate\<close> and frees
  the pointer it got; the first finishes; \<open>allocate\<close> is called once more.
\<close>

definition pool2 :: pool where
  "pool2 = \<lparr>reserved_m = \<lparr>index_m = 2, rsize_m = 1\<rparr>, consumed_m = 0,
     size_m = 2, mask_m = 1, buffer_m = 4096, lower_bound_m = 4096, upper_bound_m = 4104,
     free_objects_m = [4096, 4104],
     control_m = [\<lparr>data_index = 0, slot_size = 1\<rparr>, \<lparr>data_index = 1, slot_size = 1\<rparr>]\<rparr>"

definition overlap_schedule :: "event list" where
  "overlap_schedule =
     [Claim, Call (Allocate 9000), Call (Free 4104), Finish 9000, Call (Allocate 9000)]"

subsection \<open>Words and slot indices\<close>

lemma pow2_nat: "0 < n \<Longrightarrow> n AND (n - 1) = (0::nat) \<Longrightarrow> \<exists>k. n = 2 ^ k"
proof (induction n rule: less_induct)
  case (less n)
  show ?case
  proof (cases "even n")
    case True
    then obtain m where m: "n = 2 * m" by (elim evenE)
    with less.prems have mpos: "0 < m" by simp
    have n1: "n - 1 = 2 * (m - 1) + 1" using m mpos by simp
    have "n AND (n - 1) = 2 * (m AND (m - 1))"
      unfolding n1 unfolding m by (subst and_rec) simp
    with less.prems have "m AND (m - 1) = 0" by simp
    moreover have "m < n" using m mpos by simp
    ultimately obtain k where "m = 2 ^ k" using less.IH mpos by blast
    then have "n = 2 ^ Suc k" using m by simp
    then show ?thesis by blast
  next
    case False
    then obtain m where m: "n = 2 * m + 1" by (elim oddE)
    have "n AND (n - 1) = 2 * m"
      unfolding m by (subst and_rec) simp
    with less.prems have "m = 0" by simp
    then have "n = 2 ^ 0" using m by simp
    then show ?thesis by blast
  qed
qed

lemma unat_pow2_eq:
  assumes "unat (sz :: u32) = 2 ^ k"
  shows "sz = 2 ^ k"
proof -
  have "sz = of_nat (unat sz)" by simp
  also have "\<dots> = of_nat (2 ^ k)" by (simp only: assms)
  also have "\<dots> = 2 ^ k" by simp
  finally show ?thesis .
qed

lemma unat_pow2_32:
  assumes "k < 32"
  shows "unat (2 ^ k :: u32) = 2 ^ k"
proof -
  have lt: "(2::nat) ^ k < 2 ^ 32"
    using assms by (rule power_strict_increasing) simp
  have "unat (2 ^ k :: u32) = unat (of_nat (2 ^ k) :: u32)" by simp
  also have "\<dots> = 2 ^ k mod 2 ^ LENGTH(32)" by (rule unat_of_nat)
  also have "\<dots> = 2 ^ k" using lt by simp
  finally show ?thesis .
qed

lemma pow2_and_pred: "(2 ^ k :: u32) AND (2 ^ k - 1) = 0"
proof -
  have "(2 ^ k :: u32) AND (2 ^ k - 1) = take_bit k (2 ^ k)"
    by (simp add: take_bit_eq_mask mask_eq_exp_minus_1)
  then show ?thesis by (simp add: take_bit_eq_0_iff)
qed

lemma and_pred_unat:
  assumes "(x :: u32) \<noteq> 0" "x AND (x - 1) = 0"
  shows "unat x AND (unat x - 1) = 0"
proof -
  have "unat (x AND (x - 1)) = unat x AND unat (x - 1)" by (simp only: unsigned_and_eq)
  with assms show ?thesis by (simp add: unat_minus_one)
qed

lemma pow2_test_iff: "(sz \<noteq> 0 \<and> sz AND (sz - 1) = 0) \<longleftrightarrow> (\<exists>k<32. sz = (2 ^ k :: u32))"
proof
  assume a: "sz \<noteq> 0 \<and> sz AND (sz - 1) = 0"
  then have "0 < unat sz" by (simp add: unat_gt_0)
  moreover from a have "unat sz AND (unat sz - 1) = 0" using and_pred_unat [of sz] by blast
  ultimately obtain k where k: "unat sz = 2 ^ k" using pow2_nat by blast
  have "unat sz < 2 ^ 32" using unsigned_less [of sz, where ?'a = nat] by simp
  with k have "k < 32" using power_less_imp_less_exp [of 2 k 32] by simp
  moreover have "sz = 2 ^ k" using k by (rule unat_pow2_eq)
  ultimately show "\<exists>k<32. sz = 2 ^ k" by blast
next
  assume "\<exists>k<32. sz = 2 ^ k"
  then obtain k where k: "k < 32" "sz = 2 ^ k" by blast
  from k(1) have "unat (2 ^ k :: u32) = 2 ^ k" by (rule unat_pow2_32)
  then have "unat sz \<noteq> 0" by (simp only: k(2)) simp
  then have "sz \<noteq> 0" by (simp only: unsigned_eq_0_iff not_False_eq_True)
  moreover have "sz AND (sz - 1) = 0" by (simp only: k(2) pow2_and_pred)
  ultimately show "sz \<noteq> 0 \<and> sz AND (sz - 1) = 0" by blast
qed

lemma is_pow2_iff: "is_pow2 sz \<longleftrightarrow> (\<exists>k<32. sz = 2 ^ k)"
proof
  assume "is_pow2 sz"
  then obtain k where k: "unat sz = 2 ^ k" by (auto simp: is_pow2_def)
  have "unat sz < 2 ^ 32" using unsigned_less [of sz, where ?'a = nat] by simp
  with k have "k < 32" using power_less_imp_less_exp [of 2 k 32] by simp
  moreover have "sz = 2 ^ k" using k by (rule unat_pow2_eq)
  ultimately show "\<exists>k<32. sz = 2 ^ k" by blast
next
  assume "\<exists>k<32. sz = 2 ^ k"
  then obtain k where k: "k < 32" "sz = 2 ^ k" by blast
  from k(1) have "unat (2 ^ k :: u32) = 2 ^ k" by (rule unat_pow2_32)
  then have "unat sz = 2 ^ k" by (simp only: k(2))
  then show "is_pow2 sz" unfolding is_pow2_def by (rule exI)
qed

lemma and_mask_mod:
  assumes "k < 32"
  shows "unat ((x::u64) AND ucast ((2 ^ k - 1)::u32)) = unat x mod 2 ^ k"
proof -
  have "(2 ^ k - 1 :: u32) = mask k" by (simp add: mask_eq_exp_minus_1)
  then have "ucast ((2 ^ k - 1)::u32) = (mask k :: u64)"
    using assms by (simp add: ucast_mask_eq)
  then have "x AND ucast ((2 ^ k - 1)::u32) = take_bit k x"
    by (simp add: take_bit_eq_mask)
  then have "unat (x AND ucast ((2 ^ k - 1)::u32)) = take_bit k (unat x)"
    by (simp only: unsigned_take_bit_eq)
  then show ?thesis
    by (simp only: take_bit_eq_mod)
qed

lemma unat_ucast_32_64: "unat (ucast (w :: u32) :: u64) = unat w"
proof -
  have "unat w < 2 ^ 32" using unsigned_less [of w, where ?'a = nat] by simp
  then have "unat w < 2 ^ 64" by simp
  then show ?thesis by (simp add: unsigned_ucast_eq take_bit_nat_eq_self)
qed

lemma wf_pow2: "pool_wf s \<Longrightarrow> \<exists>k<32. size_m s = 2 ^ k \<and> mask_m s = 2 ^ k - 1"
  unfolding pool_wf_def using pow2_test_iff [of "size_m s"] by auto

lemma slot_mod:
  assumes "pool_wf s"
  shows "unat ((x::u64) AND ucast (mask_m s)) = unat x mod unat (size_m s)"
proof -
  from assms obtain k where k: "k < 32" "size_m s = 2 ^ k" "mask_m s = 2 ^ k - 1"
    using wf_pow2 by blast
  have "unat (x AND ucast ((2 ^ k - 1)::u32)) = unat x mod 2 ^ k"
    using k(1) by (rule and_mask_mod)
  then show ?thesis
    by (simp only: k(2,3) unat_pow2_32 [OF k(1)])
qed

lemma capacity_pos: "pool_wf s \<Longrightarrow> 0 < unat (size_m s)"
  by (simp add: pool_wf_def unat_gt_0)

lemma slot_lt: "pool_wf s \<Longrightarrow> unat ((x::u64) AND ucast (mask_m s)) < unat (size_m s)"
  by (simp add: slot_mod capacity_pos)

lemma unat_lt_2p32: "unat (w :: u32) < 2 ^ 32"
  using unsigned_less [of w, where ?'a = nat] by simp

lemma capacity_dvd: 
  assumes "pool_wf s" shows "unat (size_m s) dvd 2 ^ 64"
proof -
  from assms obtain k where k: "k < 32" "size_m s = 2 ^ k" using wf_pow2 by blast
  have "(2::nat) ^ k dvd 2 ^ 64" using k(1) by (intro le_imp_power_dvd) simp
  then show ?thesis by (simp only: k(2) unat_pow2_32 [OF k(1)])
qed

lemma wrap_test_nat:
  assumes "pool_wf s"
  shows "(x AND ucast (mask_m s)) + ucast n > (ucast (size_m s) :: u64)
     \<longleftrightarrow> unat x mod unat (size_m s) + unat (n :: u32) > unat (size_m s)"
proof -
  let ?idx = "x AND ucast (mask_m s)"
  have a: "unat ?idx < 2 ^ 32"
    using slot_lt [OF assms, of x] unat_lt_2p32 [of "size_m s"] by simp
  have b: "unat (ucast n :: u64) = unat n" by (rule unat_ucast_32_64)
  have "unat ?idx + unat (ucast n :: u64) < 2 ^ 64"
    using a unat_lt_2p32 [of n] by (simp add: b)
  then have "unat (?idx + ucast n) = unat ?idx + unat n"
    by (simp add: unat_add_lem [THEN iffD1] b)
  then show ?thesis
    by (simp add: word_less_nat_alt unat_ucast_32_64 slot_mod [OF assms])
qed

subsection \<open>\<open>reserve\<close>\<close>

lemma reserve_no_wrap:
  assumes "pool_wf s" "n \<le> size_m s"
    and "unat (index_m (reserved_m s)) mod unat (size_m s) + unat n \<le> unat (size_m s)"
  shows "reserve s n =
    Inr (index_m (reserved_m s),
         s\<lparr>reserved_m := \<lparr>index_m = index_m (reserved_m s) + ucast n, rsize_m = n\<rparr>\<rparr>)"
  using assms(2,3)
  by (simp add: reserve_def Let_def wrap_test_nat [OF assms(1)] not_less)

lemma reserve_wrap:
  assumes "pool_wf s" "n \<le> size_m s"
    and "unat (index_m (reserved_m s)) mod unat (size_m s) + unat n > unat (size_m s)"
  shows "reserve s n =
    (let index = index_m (reserved_m s);
         index' = index + (ucast (size_m s) - (index AND ucast (mask_m s)))
     in Inr (index',
         s\<lparr>reserved_m := \<lparr>index_m = index' + ucast n, rsize_m = n\<rparr>,
           control_m := (control_m s)[unat (index AND ucast (mask_m s)) :=
                \<lparr>data_index = index', slot_size = n\<rparr>]\<rparr>))"
  using assms(2,3)
  by (simp add: reserve_def Let_def wrap_test_nat [OF assms(1)] not_less)

lemma round_up_mod: "0 < (N::nat) \<Longrightarrow> (m + (N - m mod N)) mod N = 0"
proof -
  assume N: "0 < N"
  have "m mod N < N" using N by simp
  then have "m + (N - m mod N) = (m - m mod N) + N" by simp
  also have "\<dots> = N * (m div N) + N" by (simp add: minus_mod_eq_mult_div)
  finally show ?thesis by simp
qed

lemma skip_aligned:
  assumes "pool_wf s"
  shows "unat (((x::u64) + (ucast (size_m s) - (x AND ucast (mask_m s)))) AND ucast (mask_m s)) = 0"
proof -
  let ?N = "unat (size_m s)"
  let ?idx = "x AND ucast (mask_m s)"
  let ?sz = "ucast (size_m s) :: u64"
  have N: "0 < ?N" using assms by (rule capacity_pos)
  have idx: "unat ?idx = unat x mod ?N" using assms by (rule slot_mod)
  have szn: "unat ?sz = ?N" by (rule unat_ucast_32_64)
  have "unat ?idx \<le> unat ?sz" using slot_lt [OF assms, of x] by (simp add: szn)
  then have "?idx \<le> ?sz" by (simp only: word_le_nat_alt)
  then have d: "unat (?sz - ?idx) = ?N - unat x mod ?N"
    by (simp add: unat_sub szn idx)
  have "unat (x + (?sz - ?idx)) = (unat x + (?N - unat x mod ?N)) mod 2 ^ 64"
    by (simp add: unat_word_ariths d)
  then have "unat (x + (?sz - ?idx)) mod ?N = (unat x + (?N - unat x mod ?N)) mod ?N"
    using capacity_dvd [OF assms] by (simp add: mod_mod_cancel)
  then have "unat (x + (?sz - ?idx)) mod ?N = 0"
    using round_up_mod [OF N] by simp
  then show ?thesis by (simp only: slot_mod [OF assms])
qed


subsection \<open>The domain error of \<open>reserve\<close>\<close>

text \<open>
  C9. On a well-formed pool \<open>reserve(n)\<close> throws its \<open>runtime_error\<close> exactly when
  \<open>n > size_m\<close>. For every \<open>n \<le> size_m\<close> it returns an index \<open>i\<close> with
  \<open>(i & mask_m) + n \<le> size_m\<close>: the reserved range does not straddle the end of the ring.
\<close>

theorem reserve_domain_error:
  assumes "pool_wf s"
  shows "(size_m s < n \<longrightarrow> reserve s n = Inl (Runtime_error n (size_m s))) \<and>
         (n \<le> size_m s \<longrightarrow>
            (\<exists>i s'. reserve s n = Inr (i, s') \<and>
               unat (i AND ucast (mask_m s)) + unat n \<le> unat (size_m s)))"
proof (intro conjI impI)
  assume "size_m s < n"
  then show "reserve s n = Inl (Runtime_error n (size_m s))"
    by (simp add: reserve_def)
next
  assume n: "n \<le> size_m s"
  let ?index = "index_m (reserved_m s)"
  show "\<exists>i s'. reserve s n = Inr (i, s') \<and>
          unat (i AND ucast (mask_m s)) + unat n \<le> unat (size_m s)"
  proof (cases "unat ?index mod unat (size_m s) + unat n \<le> unat (size_m s)")
    case True
    then show ?thesis
      using reserve_no_wrap [OF assms n True] by (simp add: slot_mod [OF assms])
  next
    case False
    then have w: "unat ?index mod unat (size_m s) + unat n > unat (size_m s)" by simp
    have "unat n \<le> unat (size_m s)" using n by (simp add: word_le_nat_alt)
    then show ?thesis
      using reserve_wrap [OF assms n w] skip_aligned [OF assms, of ?index]
      by (simp add: Let_def)
  qed
qed

theorem reserve_domain_error_witness:
  "pool_wf pool4_last \<and> size_m pool4_last < 5 \<and> (2::u32) \<le> size_m pool4_last \<and>
   reserve pool4_last 5 = Inl (Runtime_error 5 4) \<and>
   (\<exists>i s'. reserve pool4_last 2 = Inr (i, s') \<and>
      unat (i AND ucast (mask_m pool4_last)) + unat (2::u32) \<le> unat (size_m pool4_last))"
proof -
  have wf: "pool_wf pool4_last" by (simp add: pool_wf_def pool4_last_def)
  have a: "size_m pool4_last < 5" and b: "(2::u32) \<le> size_m pool4_last"
    by (simp_all add: pool4_last_def)
  from reserve_domain_error [OF wf, of 5] a
  have "reserve pool4_last 5 = Inl (Runtime_error 5 4)" by (simp add: pool4_last_def)
  moreover from reserve_domain_error [OF wf, of 2] b
  have "\<exists>i s'. reserve pool4_last 2 = Inr (i, s') \<and>
      unat (i AND ucast (mask_m pool4_last)) + unat (2::u32) \<le> unat (size_m pool4_last)"
    by blast
  ultimately show ?thesis using wf a b by blast
qed

subsection \<open>The cases of \<open>consume\<close>\<close>

lemma consume_return: "consume_body s = Inl r \<Longrightarrow> consume s = Some r"
  by (subst consume.simps) simp

lemma consume_continue: "consume_body s = Inr s' \<Longrightarrow> consume s = consume s'"
  by (subst consume.simps) simp

lemma slot_in_control:
  assumes "pool_wf s"
  shows "unat ((x::u64) AND ucast (mask_m s)) < length (control_m s)"
  using slot_lt [OF assms, of x] assms by (simp add: pool_wf_def)

lemma no_reset:
  assumes "pool_wf s" "slots_behind s"
  shows "data_index (control_m s ! unat (consumed_m s AND ucast (mask_m s))) = UINT64_MAX \<or>
         data_index (control_m s ! unat (consumed_m s AND ucast (mask_m s)))
           \<le> index_m (reserved_m s)"
  using assms(2) slot_in_control [OF assms(1), of "consumed_m s"]
  unfolding slots_behind_def by blast

lemma consume_empty:
  assumes "pool_wf s" "slots_behind s"
    and "data_index (control_m s ! unat (consumed_m s AND ucast (mask_m s))) = UINT64_MAX \<or>
         data_index (control_m s ! unat (consumed_m s AND ucast (mask_m s))) < consumed_m s"
  shows "consume s = Some ((0, 0), s)"
  using no_reset [OF assms(1,2)] assms(3)
  by (intro consume_return) (auto simp: consume_body_def Let_def not_less)

lemma consume_claim:
  assumes "pool_wf s" "slots_behind s"
    and "data_index (control_m s ! unat (consumed_m s AND ucast (mask_m s))) \<noteq> UINT64_MAX"
    and "consumed_m s \<le> data_index (control_m s ! unat (consumed_m s AND ucast (mask_m s)))"
    and "unat (data_index (control_m s ! unat (consumed_m s AND ucast (mask_m s)))
               AND ucast (mask_m s)) = unat (consumed_m s AND ucast (mask_m s))"
  shows "consume s =
    Some ((free_objects_m s ! unat (consumed_m s AND ucast (mask_m s)),
           slot_size (control_m s ! unat (consumed_m s AND ucast (mask_m s)))),
          s\<lparr>consumed_m :=
              data_index (control_m s ! unat (consumed_m s AND ucast (mask_m s))) +
              ucast (slot_size (control_m s ! unat (consumed_m s AND ucast (mask_m s))))\<rparr>)"
  using no_reset [OF assms(1,2)] assms(3,4,5)
  by (intro consume_return)
    (auto simp: consume_body_def Let_def not_less word_unat_eq_iff [of "_ AND _" "_ AND _"])

text \<open>
  C1. In a well-formed pool none of whose slots is ahead of the producer, let \<open>current\<close>
  be the consumer cursor, \<open>i = current & mask_m\<close> and \<open>stored = control_m[i].data_index\<close>.
  If \<open>stored\<close> is the sentinel or \<open>stored < current\<close>, \<open>consume\<close> returns \<open>(nullptr, 0)\<close> and
  leaves the pool as it is. If the slot is readable (\<open>stored\<close> is not the sentinel,
  \<open>stored \<ge> current\<close> and \<open>stored & mask_m = i\<close>), \<open>consume\<close> moves the consumer cursor to
  \<open>stored + control_m[i].size\<close> and returns \<open>free_objects_m[current & mask_m]\<close> with
  \<open>control_m[i].size\<close>.
\<close>

theorem consume_case_analysis:
  assumes "pool_wf s" "slots_behind s"
  shows "let current = consumed_m s;
             i = unat (current AND ucast (mask_m s));
             stored = data_index (control_m s ! i);
             sz = slot_size (control_m s ! i)
         in (stored = UINT64_MAX \<or> stored < current \<longrightarrow> consume s = Some ((0, 0), s)) \<and>
            (stored \<noteq> UINT64_MAX \<and> current \<le> stored \<and>
             unat (stored AND ucast (mask_m s)) = i \<longrightarrow>
               consume s = Some ((free_objects_m s ! unat (current AND ucast (mask_m s)), sz),
                                 s\<lparr>consumed_m := stored + ucast sz\<rparr>))"
  using consume_empty [OF assms] consume_claim [OF assms]
  by (simp only: Let_def) blast

theorem consume_case_analysis_witness:
  "pool_wf pool4 \<and> slots_behind pool4 \<and> pool_wf pool4_last \<and> slots_behind pool4_last \<and>
   consume pool4 = Some ((4096, 1), pool4\<lparr>consumed_m := 1\<rparr>) \<and>
   data_index (control_m pool4_last ! 3) < consumed_m pool4_last \<and>
   consume pool4_last = Some ((0, 0), pool4_last)"
proof -
  have wf: "pool_wf pool4" "pool_wf pool4_last"
    by (simp_all add: pool_wf_def pool4_def pool4_last_def)
  have sb: "slots_behind pool4" "slots_behind pool4_last"
    by (simp_all add: slots_behind_def pool4_def pool4_last_def UINT64_MAX_def All_less_Suc)
  have lt: "data_index (control_m pool4_last ! 3) < consumed_m pool4_last"
    by (simp add: pool4_last_def)
  from consume_case_analysis [OF wf(1) sb(1)]
  have "consume pool4 = Some ((4096, 1), pool4\<lparr>consumed_m := 1\<rparr>)"
    by (simp add: Let_def pool4_def UINT64_MAX_def)
  moreover from consume_case_analysis [OF wf(2) sb(2)] lt
  have "consume pool4_last = Some ((0, 0), pool4_last)"
    by (simp add: Let_def pool4_last_def UINT64_MAX_def)
  ultimately show ?thesis using wf sb lt by blast
qed

subsection \<open>The wrap-skip handshake\<close>

text \<open>
  C2. Producer side: in a well-formed pool, a reservation of width \<open>n \<le> size_m\<close> from
  producer index \<open>index\<close> with \<open>idx = index & mask_m\<close> and \<open>idx + n > size_m\<close> returns
  \<open>index + (size_m - idx)\<close>, which lies on slot 0, so that \<open>(returned & mask_m) + n \<le> size_m\<close>,
  and leaves on slot \<open>index & mask_m\<close> the record \<open>{data_index = returned, size = n}\<close>.
  Consumer side: in a well-formed pool none of whose slots is ahead of the producer, a
  consumer whose slot holds a published index \<open>stored > current\<close> with
  \<open>stored & mask_m \<noteq> current & mask_m\<close> moves the consumer cursor from \<open>current\<close> to
  \<open>stored\<close> and goes round the loop again.
\<close>

theorem wrap_skip_handshake:
  assumes "pool_wf s" "n \<le> size_m s"
    and "(index_m (reserved_m s) AND ucast (mask_m s)) + ucast n > (ucast (size_m s) :: u64)"
    and "pool_wf t" "slots_behind t"
  shows "(let index = index_m (reserved_m s);
              idx = index AND ucast (mask_m s);
              returned = index + (ucast (size_m s) - idx)
          in (\<exists>s'. reserve s n = Inr (returned, s') \<and>
                control_m s' ! unat (index AND ucast (mask_m s)) =
                  \<lparr>data_index = returned, slot_size = n\<rparr>) \<and>
             returned AND ucast (mask_m s) = 0 \<and>
             unat (returned AND ucast (mask_m s)) + unat n \<le> unat (size_m s)) \<and>
         (let current = consumed_m t;
              stored = data_index (control_m t ! unat (current AND ucast (mask_m t)))
          in stored \<noteq> UINT64_MAX \<and> stored > current \<and>
             stored AND ucast (mask_m t) \<noteq> current AND ucast (mask_m t) \<longrightarrow>
               consume_body t = Inr (t\<lparr>consumed_m := stored\<rparr>) \<and>
               consume t = consume (t\<lparr>consumed_m := stored\<rparr>))"
proof -
  let ?index = "index_m (reserved_m s)"
  let ?idx = "?index AND ucast (mask_m s)"
  let ?ret = "?index + (ucast (size_m s) - ?idx)"
  have w: "unat ?index mod unat (size_m s) + unat n > unat (size_m s)"
    using assms(3) by (simp only: wrap_test_nat [OF assms(1)])
  have al: "unat (?ret AND ucast (mask_m s)) = 0"
    using assms(1) by (rule skip_aligned)
  then have al': "?ret AND ucast (mask_m s) = 0"
    by (simp only: unsigned_eq_0_iff)
  have len: "unat ?idx < length (control_m s)"
    using slot_lt [OF assms(1), of ?index] assms(1) by (simp add: pool_wf_def)
  have r: "\<exists>s'. reserve s n = Inr (?ret, s') \<and>
      control_m s' ! unat ?idx = \<lparr>data_index = ?ret, slot_size = n\<rparr>"
    using reserve_wrap [OF assms(1,2) w] len by (simp add: Let_def)
  have "unat n \<le> unat (size_m s)" using assms(2) by (simp add: word_le_nat_alt)
  then have fit: "unat (?ret AND ucast (mask_m s)) + unat n \<le> unat (size_m s)"
    by (simp only: al)
  let ?current = "consumed_m t"
  let ?i = "unat (?current AND ucast (mask_m t))"
  let ?stored = "data_index (control_m t ! ?i)"
  have "?i < length (control_m t)"
    using slot_lt [OF assms(4), of ?current] assms(4) by (simp add: pool_wf_def)
  with assms(5) have nr: "?stored = UINT64_MAX \<or> ?stored \<le> index_m (reserved_m t)"
    unfolding slots_behind_def by blast
  have c: "?stored \<noteq> UINT64_MAX \<and> ?stored > ?current \<and>
       ?stored AND ucast (mask_m t) \<noteq> ?current AND ucast (mask_m t) \<Longrightarrow>
     consume_body t = Inr (t\<lparr>consumed_m := ?stored\<rparr>)"
    using nr by (auto simp: consume_body_def Let_def not_less)
  from r al' fit c consume_continue [of t "t\<lparr>consumed_m := ?stored\<rparr>"]
  show ?thesis by (simp only: Let_def) blast
qed

theorem wrap_skip_handshake_witness:
  "pool_wf pool4_last \<and> (2::u32) \<le> size_m pool4_last \<and>
   (index_m (reserved_m pool4_last) AND ucast (mask_m pool4_last)) + ucast (2::u32)
     > (ucast (size_m pool4_last) :: u64) \<and>
   pool_wf pool4_skip \<and> slots_behind pool4_skip \<and>
   reserve pool4_last 2 = Inr (8, pool4_skip) \<and>
   data_index (control_m pool4_skip ! 3) \<noteq> UINT64_MAX \<and>
   data_index (control_m pool4_skip ! 3) > consumed_m pool4_skip \<and>
   data_index (control_m pool4_skip ! 3) AND ucast (mask_m pool4_skip)
     \<noteq> consumed_m pool4_skip AND ucast (mask_m pool4_skip) \<and>
   consume_body pool4_skip = Inr (pool4_skip\<lparr>consumed_m := 8\<rparr>)"
proof -
  have wf: "pool_wf pool4_last" "pool_wf pool4_skip"
    by (simp_all add: pool_wf_def pool4_last_def pool4_skip_def)
  have n: "(2::u32) \<le> size_m pool4_last" by (simp add: pool4_last_def)
  have w: "(index_m (reserved_m pool4_last) AND ucast (mask_m pool4_last)) + ucast (2::u32)
     > (ucast (size_m pool4_last) :: u64)" by (simp add: pool4_last_def)
  have sb: "slots_behind pool4_skip"
    by (simp add: slots_behind_def pool4_skip_def UINT64_MAX_def All_less_Suc)
  have g: "data_index (control_m pool4_skip ! 3) \<noteq> UINT64_MAX"
    "data_index (control_m pool4_skip ! 3) > consumed_m pool4_skip"
    "data_index (control_m pool4_skip ! 3) AND ucast (mask_m pool4_skip)
       \<noteq> consumed_m pool4_skip AND ucast (mask_m pool4_skip)"
    by (simp_all add: pool4_skip_def UINT64_MAX_def)
  have r: "reserve pool4_last 2 = Inr (8, pool4_skip)"
    by (simp add: reserve_def pool4_last_def pool4_skip_def Let_def)
  from wrap_skip_handshake [OF wf(1) n w wf(2) sb] g
  have "consume_body pool4_skip = Inr (pool4_skip\<lparr>consumed_m := 8\<rparr>)"
    by (simp add: Let_def pool4_skip_def)
  with wf n w sb g r show ?thesis by blast
qed

subsection \<open>The constructor and \<open>free\<close> as \<open>put\<close>\<close>

lemma one_le_size: "pool_wf s \<Longrightarrow> 1 \<le> size_m s"
  by (simp add: pool_wf_def word_le_nat_alt unat_gt_0 Suc_le_eq)

lemma reserve_one:
  assumes "pool_wf s"
  shows "reserve s 1 =
    Inr (index_m (reserved_m s),
         s\<lparr>reserved_m := \<lparr>index_m = index_m (reserved_m s) + 1, rsize_m = 1\<rparr>\<rparr>)"
proof -
  have "unat (index_m (reserved_m s)) mod unat (size_m s) < unat (size_m s)"
    using capacity_pos [OF assms] by simp
  then have "unat (index_m (reserved_m s)) mod unat (size_m s) + unat (1::u32) \<le> unat (size_m s)"
    by simp
  from reserve_no_wrap [OF assms one_le_size [OF assms] this] show ?thesis by simp
qed

lemma reserve_publish:
  assumes "pool_wf s"
  shows "(case reserve s 1 of
            Inl e \<Rightarrow> Inl e
          | Inr (index, s1) \<Rightarrow>
              let s2 = s1\<lparr>free_objects_m := (free_objects_m s1)
                         [unat (index AND ucast (mask_m s1)) := p]\<rparr>
              in Inr (f (publish s2 index 1))) = Inr (f (put p s))"
  by (simp add: reserve_one [OF assms] publish_def put_def Let_def slot_mod [OF assms])

lemma put_simps [simp]:
  "size_m (put p s) = size_m s" "mask_m (put p s) = mask_m s"
  "buffer_m (put p s) = buffer_m s" "consumed_m (put p s) = consumed_m s"
  "lower_bound_m (put p s) = lower_bound_m s" "upper_bound_m (put p s) = upper_bound_m s"
  "index_m (reserved_m (put p s)) = index_m (reserved_m s) + 1"
  "length (control_m (put p s)) = length (control_m s)"
  "length (free_objects_m (put p s)) = length (free_objects_m s)"
  by (simp_all add: put_def Let_def)

lemma put_wf: "pool_wf s \<Longrightarrow> pool_wf (put p s)"
  by (simp add: pool_wf_def)

lemma put_nth:
  assumes "pool_wf s" "j < unat (size_m s)"
  shows "control_m (put p s) ! j =
           (if j = unat (index_m (reserved_m s)) mod unat (size_m s)
            then \<lparr>data_index = index_m (reserved_m s), slot_size = 1\<rparr> else control_m s ! j)"
    and "free_objects_m (put p s) ! j =
           (if j = unat (index_m (reserved_m s)) mod unat (size_m s) then p
            else free_objects_m s ! j)"
  using assms by (simp_all add: put_def Let_def pool_wf_def)

lemma seed_step:
  assumes "pool_wf s" "i < n"
  shows "seed tsz n i s = seed tsz n (Suc i) (put (buffer_m s + int i * int tsz) s)"
proof -
  have "seed tsz n i s =
      (case reserve s 1 of
         Inl e \<Rightarrow> Inl e
       | Inr (index, s1) \<Rightarrow>
           let s2 = s1\<lparr>free_objects_m := (free_objects_m s1)
                      [unat (index AND ucast (mask_m s1)) := buffer_m s1 + int i * int tsz]\<rparr>
           in seed tsz n (Suc i) (publish s2 index 1))"
    using assms(2) by (subst seed.simps) simp
  also have "\<dots> = seed tsz n (Suc i) (put (buffer_m s + int i * int tsz) s)"
    by (simp add: reserve_one [OF assms(1)] publish_def put_def Let_def slot_mod [OF assms(1)])
  finally show ?thesis .
qed

lemma unat_of_nat_small: "i < 2 ^ 64 \<Longrightarrow> unat (of_nat i :: u64) = i"
  by (simp add: unat_of_nat)

lemma seed_loop:
  assumes "pool_wf s" "n = unat (size_m s)" "i \<le> n" "index_m (reserved_m s) = of_nat i"
  shows "\<exists>s'. seed tsz n i s = Inr s' \<and> pool_wf s' \<and>
           size_m s' = size_m s \<and> mask_m s' = mask_m s \<and> buffer_m s' = buffer_m s \<and>
           consumed_m s' = consumed_m s \<and> index_m (reserved_m s') = of_nat n \<and>
           (\<forall>j<n. if j < i
                  then control_m s' ! j = control_m s ! j \<and>
                       free_objects_m s' ! j = free_objects_m s ! j
                  else control_m s' ! j = \<lparr>data_index = of_nat j, slot_size = 1\<rparr> \<and>
                       free_objects_m s' ! j = buffer_m s + int j * int tsz)"
  using assms
proof (induction "n - i" arbitrary: i s)
  case 0
  then have "i = n" by simp
  then show ?case using "0.prems" by (subst seed.simps) simp
next
  case (Suc d)
  then have lt: "i < n" by simp
  let ?s = "put (buffer_m s + int i * int tsz) s"
  have wf: "pool_wf ?s" using Suc.prems(1) by (rule put_wf)
  have n32: "n < 2 ^ 32" using Suc.prems(2) unat_lt_2p32 [of "size_m s"] by simp
  then have i64: "i < 2 ^ 64" using lt by simp
  have im: "unat (index_m (reserved_m s)) mod unat (size_m s) = i"
    using lt Suc.prems(2,4) by (simp add: unat_of_nat_small [OF i64])
  have "d = n - Suc i" using Suc.hyps(2) by simp
  moreover have "n = unat (size_m ?s)" using Suc.prems(2) by simp
  moreover have "Suc i \<le> n" using lt by simp
  moreover have "index_m (reserved_m ?s) = of_nat (Suc i)" using Suc.prems(4) by simp
  ultimately obtain s' where s': "seed tsz n (Suc i) ?s = Inr s'" "pool_wf s'"
    "size_m s' = size_m ?s" "mask_m s' = mask_m ?s" "buffer_m s' = buffer_m ?s"
    "consumed_m s' = consumed_m ?s" "index_m (reserved_m s') = of_nat n"
    and all: "\<forall>j<n. if j < Suc i
                  then control_m s' ! j = control_m ?s ! j \<and>
                       free_objects_m s' ! j = free_objects_m ?s ! j
                  else control_m s' ! j = \<lparr>data_index = of_nat j, slot_size = 1\<rparr> \<and>
                       free_objects_m s' ! j = buffer_m ?s + int j * int tsz"
    using Suc.hyps(1) [of "Suc i" ?s] wf by blast
  have "seed tsz n i s = Inr s'" using seed_step [OF Suc.prems(1) lt] s'(1) by simp
  moreover have "\<forall>j<n. if j < i
                  then control_m s' ! j = control_m s ! j \<and>
                       free_objects_m s' ! j = free_objects_m s ! j
                  else control_m s' ! j = \<lparr>data_index = of_nat j, slot_size = 1\<rparr> \<and>
                       free_objects_m s' ! j = buffer_m s + int j * int tsz"
  proof (intro allI impI)
    fix j assume j: "j < n"
    then have jn: "j < unat (size_m s)" using Suc.prems(2) by simp
    show "if j < i
          then control_m s' ! j = control_m s ! j \<and>
               free_objects_m s' ! j = free_objects_m s ! j
          else control_m s' ! j = \<lparr>data_index = of_nat j, slot_size = 1\<rparr> \<and>
               free_objects_m s' ! j = buffer_m s + int j * int tsz"
      using all [rule_format, OF j] put_nth [OF Suc.prems(1) jn] im Suc.prems(4)
      by (cases "j = i") (auto simp: less_Suc_eq)
  qed
  ultimately show ?case using s' by simp
qed

lemma is_pow2_test: "is_pow2 sz \<longleftrightarrow> sz \<noteq> 0 \<and> sz AND (sz - 1) = 0"
  by (simp only: is_pow2_iff pow2_test_iff)

lemma ObjectPool_ok:
  assumes "is_pow2 sz"
  shows "\<exists>s. ObjectPool tsz buf sz = Inr s \<and> pool_wf s \<and> size_m s = sz \<and>
           mask_m s = sz - 1 \<and> buffer_m s = buf \<and> lower_bound_m s = buf \<and>
           upper_bound_m s = buf + int (unat (sz - 1)) * int tsz \<and>
           consumed_m s = 0 \<and> index_m (reserved_m s) = ucast sz \<and>
           (\<forall>j<unat sz. control_m s ! j = \<lparr>data_index = of_nat j, slot_size = 1\<rparr> \<and>
                         free_objects_m s ! j = buf + int j * int tsz)"
proof -
  let ?s = "\<lparr>reserved_m = \<lparr>index_m = 0, rsize_m = 0\<rparr>, consumed_m = 0, size_m = sz,
             mask_m = sz - 1, buffer_m = buf, lower_bound_m = 0, upper_bound_m = 0,
             free_objects_m = replicate (unat sz) 0,
             control_m = replicate (unat sz) fresh_slot\<rparr>"
  have t: "sz \<noteq> 0 \<and> sz AND (sz - 1) = 0" using assms is_pow2_test [of sz] by blast
  have wf: "pool_wf ?s" unfolding pool_wf_def using t by simp
  have "unat sz = unat (size_m ?s)" "0 \<le> unat sz" "index_m (reserved_m ?s) = of_nat 0"
    by simp_all
  from seed_loop [OF wf this, of tsz]
  obtain s' where s': "seed tsz (unat sz) 0 ?s = Inr s'" "pool_wf s'"
    "size_m s' = sz" "mask_m s' = sz - 1" "buffer_m s' = buf"
    "consumed_m s' = 0" "index_m (reserved_m s') = of_nat (unat sz)"
    "\<forall>j<unat sz. control_m s' ! j = \<lparr>data_index = of_nat j, slot_size = 1\<rparr> \<and>
                  free_objects_m s' ! j = buf + int j * int tsz"
    by auto
  let ?r = "s'\<lparr>lower_bound_m := buffer_m s' + 0 * int tsz,
               upper_bound_m := buffer_m s' + int (unat (mask_m s')) * int tsz\<rparr>"
  have "ObjectPool tsz buf sz = Inr ?r"
    using t s'(1) by (simp add: ObjectPool_def Let_def)
  moreover have "pool_wf ?r" using s'(2) by (simp add: pool_wf_def)
  ultimately show ?thesis using s' by simp
qed

text \<open>
  C5. Construction with a power-of-two capacity \<open>sz\<close> succeeds and leaves the producer
  index at \<open>sz\<close>, the consumer cursor at 0, and in every slot \<open>i < sz\<close> the index \<open>i\<close>
  and the pointer \<open>&buffer_m[i]\<close>.
\<close>

theorem construction_postcondition:
  assumes "is_pow2 sz"
  shows "\<exists>s. ObjectPool tsz buf sz = Inr s \<and>
           index_m (reserved_m s) = ucast sz \<and> consumed_m s = 0 \<and>
           (\<forall>i<unat sz. data_index (control_m s ! i) = of_nat i \<and>
                         free_objects_m s ! i = buf + int i * int tsz)"
proof -
  from ObjectPool_ok [OF assms, of tsz buf] obtain s where
    "ObjectPool tsz buf sz = Inr s" "index_m (reserved_m s) = ucast sz" "consumed_m s = 0"
    "\<forall>j<unat sz. control_m s ! j = \<lparr>data_index = of_nat j, slot_size = 1\<rparr> \<and>
                  free_objects_m s ! j = buf + int j * int tsz"
    by blast
  then show ?thesis by (intro exI [of _ s]) simp
qed

theorem construction_postcondition_witness:
  "is_pow2 4 \<and> ObjectPool 8 4096 4 = Inr pool4 \<and>
   (\<exists>s. ObjectPool 8 4096 4 = Inr s \<and>
      index_m (reserved_m s) = 4 \<and> consumed_m s = 0 \<and>
      (\<forall>i<4. data_index (control_m s ! i) = of_nat i \<and>
              free_objects_m s ! i = 4096 + int i * 8))"
proof -
  have p: "is_pow2 4" by (simp add: is_pow2_test)
  have "ObjectPool 8 4096 4 = Inr pool4" by code_simp
  with construction_postcondition [OF p, of 8 4096] p show ?thesis by simp
qed

text \<open>
  C8. Construction fails on its assertion for every capacity that is zero or not a power
  of two, and succeeds for every power of two.
\<close>

theorem construction_precondition:
  "(\<not> is_pow2 sz \<longrightarrow> ObjectPool tsz buf sz = Inl Assertion_failed) \<and>
   (is_pow2 sz \<longrightarrow> (\<exists>s. ObjectPool tsz buf sz = Inr s \<and> size_m s = sz))"
proof (intro conjI impI)
  assume "\<not> is_pow2 sz"
  then show "ObjectPool tsz buf sz = Inl Assertion_failed"
    by (simp add: is_pow2_test ObjectPool_def)
next
  assume "is_pow2 sz"
  from ObjectPool_ok [OF this, of tsz buf]
  show "\<exists>s. ObjectPool tsz buf sz = Inr s \<and> size_m s = sz" by blast
qed

theorem construction_precondition_witness:
  "\<not> is_pow2 0 \<and> ObjectPool 8 4096 0 = Inl Assertion_failed \<and>
   \<not> is_pow2 6 \<and> ObjectPool 8 4096 6 = Inl Assertion_failed \<and>
   is_pow2 1 \<and> (\<exists>s. ObjectPool 8 4096 1 = Inr s \<and> size_m s = 1)"
proof -
  have p: "\<not> is_pow2 0" "\<not> is_pow2 6" "is_pow2 1" by (simp_all add: is_pow2_test)
  from construction_precondition [of 0 8 4096] construction_precondition [of 6 8 4096]
    construction_precondition [of 1 8 4096] p
  show ?thesis by blast
qed

subsection \<open>\<open>free\<close>\<close>

lemma free_in_bounds:
  assumes "pool_wf s" "in_bounds s p"
  shows "free p s = Inr (put p s, None)"
  using assms(2) reserve_publish [OF assms(1), of p "\<lambda>s. (s, None)"]
  by (simp add: free_def in_bounds_def Let_def)

lemma free_out_of_bounds: "\<not> in_bounds s p \<Longrightarrow> free p s = Inr (s, delete_T p)"
  by (auto simp: free_def in_bounds_def Let_def)

text \<open>
  C4. \<open>free(p)\<close> on a well-formed pool dispatches on the comparison of \<open>p\<close> with the two
  bounds. If \<open>lower_bound_m \<le> p \<le> upper_bound_m\<close>, it reserves one index, writes \<open>p\<close> to
  \<open>free_objects_m[index & mask_m]\<close> and publishes the index: afterwards that slot holds
  \<open>p\<close> under the index reserved, and the producer has moved on by one. Otherwise the pool
  is unchanged and \<open>p\<close> is deleted.
\<close>

theorem free_dispatch:
  assumes "pool_wf s"
  shows "(lower_bound_m s \<le> p \<and> p \<le> upper_bound_m s \<longrightarrow>
            (let index = index_m (reserved_m s); j = unat (index AND ucast (mask_m s))
             in \<exists>s1 s'. reserve s 1 = Inr (index, s1) \<and>
                  s' = publish (s1\<lparr>free_objects_m := (free_objects_m s1)[j := p]\<rparr>) index 1 \<and>
                  free p s = Inr (s', None) \<and>
                  free_objects_m s' ! j = p \<and>
                  control_m s' ! j = \<lparr>data_index = index, slot_size = 1\<rparr> \<and>
                  index_m (reserved_m s') = index + 1 \<and>
                  consumed_m s' = consumed_m s)) \<and>
         (\<not> (lower_bound_m s \<le> p \<and> p \<le> upper_bound_m s) \<longrightarrow>
            free p s = Inr (s, delete_T p) \<and> (p \<noteq> 0 \<longrightarrow> delete_T p = Some p))"
proof (intro conjI impI)
  assume b: "lower_bound_m s \<le> p \<and> p \<le> upper_bound_m s"
  let ?index = "index_m (reserved_m s)"
  let ?j = "unat (?index AND ucast (mask_m s))"
  let ?s1 = "s\<lparr>reserved_m := \<lparr>index_m = ?index + 1, rsize_m = 1\<rparr>\<rparr>"
  let ?s' = "publish (?s1\<lparr>free_objects_m := (free_objects_m ?s1)[?j := p]\<rparr>) ?index 1"
  have j: "?j < unat (size_m s)" using assms by (rule slot_lt)
  have r: "reserve s 1 = Inr (?index, ?s1)" using assms by (rule reserve_one)
  have f: "free p s = Inr (?s', None)"
    using b by (simp add: free_def Let_def r)
  have "free_objects_m ?s' ! ?j = p" "control_m ?s' ! ?j = \<lparr>data_index = ?index, slot_size = 1\<rparr>"
    "index_m (reserved_m ?s') = ?index + 1" "consumed_m ?s' = consumed_m s"
    using j assms by (simp_all add: publish_def pool_wf_def)
  with r f show "let index = index_m (reserved_m s); j = unat (index AND ucast (mask_m s))
             in \<exists>s1 s'. reserve s 1 = Inr (index, s1) \<and>
                  s' = publish (s1\<lparr>free_objects_m := (free_objects_m s1)[j := p]\<rparr>) index 1 \<and>
                  free p s = Inr (s', None) \<and>
                  free_objects_m s' ! j = p \<and>
                  control_m s' ! j = \<lparr>data_index = index, slot_size = 1\<rparr> \<and>
                  index_m (reserved_m s') = index + 1 \<and>
                  consumed_m s' = consumed_m s"
    by (simp only: Let_def) blast
next
  assume "\<not> (lower_bound_m s \<le> p \<and> p \<le> upper_bound_m s)"
  then show "free p s = Inr (s, delete_T p)"
    by (intro free_out_of_bounds) (simp add: in_bounds_def)
next
  assume "p \<noteq> 0" then show "delete_T p = Some p" by (simp add: delete_T_def)
qed

theorem free_dispatch_witness:
  "pool_wf pool4_last \<and>
   lower_bound_m pool4_last \<le> 4112 \<and> 4112 \<le> upper_bound_m pool4_last \<and>
   free 4112 pool4_last = Inr (pool4_last\<lparr>reserved_m := \<lparr>index_m = 8, rsize_m = 1\<rparr>,
      free_objects_m := [4096, 4104, 4112, 4112],
      control_m := (control_m pool4_last)[3 := \<lparr>data_index = 7, slot_size = 1\<rparr>]\<rparr>, None) \<and>
   \<not> (lower_bound_m pool4_last \<le> 9000 \<and> 9000 \<le> upper_bound_m pool4_last) \<and>
   free 9000 pool4_last = Inr (pool4_last, Some 9000)"
proof -
  have wf: "pool_wf pool4_last" by (simp add: pool_wf_def pool4_last_def)
  have b: "lower_bound_m pool4_last \<le> 4112 \<and> 4112 \<le> upper_bound_m pool4_last"
    "\<not> (lower_bound_m pool4_last \<le> 9000 \<and> 9000 \<le> upper_bound_m pool4_last)"
    by (simp_all add: pool4_last_def)
  from free_dispatch [OF wf, of 4112] b(1)
  have "free 4112 pool4_last = Inr (pool4_last\<lparr>reserved_m := \<lparr>index_m = 8, rsize_m = 1\<rparr>,
      free_objects_m := [4096, 4104, 4112, 4112],
      control_m := (control_m pool4_last)[3 := \<lparr>data_index = 7, slot_size = 1\<rparr>]\<rparr>, None)"
    by (auto simp add: Let_def pool4_last_def publish_def reserve_def)
  moreover from free_dispatch [OF wf, of 9000] b(2)
  have "free 9000 pool4_last = Inr (pool4_last, Some 9000)" by simp
  ultimately show ?thesis using wf b by blast
qed

subsection \<open>The cursors along a run\<close>

lemma below_not_max: "(d::u64) < x \<Longrightarrow> d \<noteq> UINT64_MAX"
  unfolding UINT64_MAX_def using word_n1_ge [of x] by auto

lemma cursor_slots_behind: "cursor_inv s \<Longrightarrow> slots_behind s"
  by (auto simp: cursor_inv_def slots_behind_def pool_wf_def word_le_nat_alt)

lemma cursor_consume:
  assumes "cursor_inv s"
  shows "let j = unat (consumed_m s) mod unat (size_m s);
             d = data_index (control_m s ! j)
         in consume s = (if d < consumed_m s then Some ((0, 0), s)
                         else Some ((free_objects_m s ! j, 1), s\<lparr>consumed_m := d + 1\<rparr>))"
proof -
  have wf: "pool_wf s" using assms by (simp add: cursor_inv_def)
  have sb: "slots_behind s" using assms by (rule cursor_slots_behind)
  let ?j = "unat (consumed_m s) mod unat (size_m s)"
  let ?d = "data_index (control_m s ! ?j)"
  have jm: "unat (consumed_m s AND ucast (mask_m s)) = ?j" using wf by (rule slot_mod)
  have j: "?j < unat (size_m s)" using capacity_pos [OF wf] by simp
  with assms have dj: "unat ?d mod unat (size_m s) = ?j"
    "unat ?d < unat (index_m (reserved_m s))" "slot_size (control_m s ! ?j) = 1"
    by (simp_all add: cursor_inv_def)
  have nm: "?d \<noteq> UINT64_MAX"
    using dj(2) by (intro below_not_max [of _ "index_m (reserved_m s)"]) (simp add: word_less_nat_alt)
  show ?thesis
  proof (cases "?d < consumed_m s")
    case True
    then show ?thesis using consume_empty [OF wf sb] by (simp add: jm Let_def)
  next
    case False
    then have "consumed_m s \<le> ?d" by simp
    moreover have "unat (?d AND ucast (mask_m s)) = ?j" using dj(1) by (simp add: slot_mod [OF wf])
    ultimately show ?thesis
      using consume_claim [OF wf sb] nm dj(3) False by (simp add: jm Let_def)
  qed
qed

lemma unat_succ: "unat (d::u64) < n \<Longrightarrow> n < 2 ^ 64 \<Longrightarrow> unat (d + 1) = unat d + 1"
  by (simp add: unat_word_ariths)

lemma unat_index_lt: "unat (x::u64) < 2 ^ 64"
  using unsigned_less [of x, where ?'a = nat] by simp

lemma cursor_consumed_upd:
  assumes "cursor_inv s" "unat c \<le> unat (index_m (reserved_m s))"
  shows "cursor_inv (s\<lparr>consumed_m := c\<rparr>)"
  using assms by (simp add: cursor_inv_def pool_wf_def)

lemma cursor_allocate:
  assumes "cursor_inv s"
  shows "\<exists>p s'. allocate a s = Some (Inr (p, s')) \<and> cursor_inv s' \<and>
           s' = s\<lparr>consumed_m := consumed_m s'\<rparr>"
proof -
  have wf: "pool_wf s" using assms by (simp add: cursor_inv_def)
  let ?j = "unat (consumed_m s) mod unat (size_m s)"
  let ?d = "data_index (control_m s ! ?j)"
  have j: "?j < unat (size_m s)" using capacity_pos [OF wf] by simp
  with assms have dj: "unat ?d < unat (index_m (reserved_m s))"
    by (simp add: cursor_inv_def)
  have "unat (?d + 1) = unat ?d + 1"
    using dj unat_index_lt [of "index_m (reserved_m s)"] by (rule unat_succ)
  then have "unat (?d + 1) \<le> unat (index_m (reserved_m s))" using dj by simp
  then have ci: "cursor_inv (s\<lparr>consumed_m := ?d + 1\<rparr>)"
    using assms by (intro cursor_consumed_upd)
  show ?thesis
  proof (cases "?d < consumed_m s")
    case True
    then have "consume s = Some ((0, 0), s)"
      using cursor_consume [OF assms] by (simp add: Let_def)
    then show ?thesis using assms by (simp add: allocate_def)
  next
    case False
    then have "consume s = Some ((free_objects_m s ! ?j, 1), s\<lparr>consumed_m := ?d + 1\<rparr>)"
      using cursor_consume [OF assms] by (simp add: Let_def)
    then show ?thesis using ci by (simp add: allocate_def)
  qed
qed

lemma cursor_put:
  assumes "cursor_inv s" "unat (index_m (reserved_m s)) + 1 < 2 ^ 64"
  shows "cursor_inv (put p s)"
proof -
  have wf: "pool_wf s" using assms by (simp add: cursor_inv_def)
  have P: "unat (index_m (reserved_m s) + 1) = unat (index_m (reserved_m s)) + 1"
    using assms(2) by (simp add: unat_word_ariths)
  have "\<forall>i < unat (size_m s).
        unat (data_index (control_m (put p s) ! i)) mod unat (size_m s) = i \<and>
        unat (data_index (control_m (put p s) ! i)) < unat (index_m (reserved_m s)) + 1 \<and>
        slot_size (control_m (put p s) ! i) = 1"
    using assms(1) by (auto simp: put_nth [OF wf] cursor_inv_def less_Suc_eq)
  then show ?thesis
    using assms(1) put_wf [OF wf, of p] by (simp add: cursor_inv_def P)
qed

lemma cursor_step:
  assumes "cursor_inv s" "unat (index_m (reserved_m s)) + 1 < 2 ^ 64"
  shows "\<exists>s' held'. step x (s, held) = Some (s', held') \<and> cursor_inv s' \<and>
           unat (index_m (reserved_m s')) \<le> unat (index_m (reserved_m s)) + 1"
proof (cases x)
  case (Allocate a)
  from cursor_allocate [OF assms(1), of a] obtain p s' where
    a: "allocate a s = Some (Inr (p, s'))" "cursor_inv s'" "s' = s\<lparr>consumed_m := consumed_m s'\<rparr>"
    by blast
  from a(3) have "reserved_m s' = reserved_m s" by (metis pool.select_convs(1) pool.surjective pool.update_convs(2))
  then show ?thesis using Allocate a by simp
next
  case (Free p)
  have wf: "pool_wf s" using assms by (simp add: cursor_inv_def)
  show ?thesis
  proof (cases "in_bounds s p")
    case True
    have "unat (index_m (reserved_m s) + 1) = unat (index_m (reserved_m s)) + 1"
      using assms(2) by (simp add: unat_word_ariths)
    then show ?thesis
      using Free free_in_bounds [OF wf True] cursor_put [OF assms, of p] by simp
  next
    case False
    then show ?thesis using Free free_out_of_bounds [OF False] assms(1) by simp
  qed
qed

lemma cursor_run:
  assumes "cursor_inv s" "unat (index_m (reserved_m s)) + length ops < 2 ^ 64"
  shows "\<exists>s' held'. run (s, held) ops = Some (s', held') \<and> cursor_inv s' \<and>
           unat (index_m (reserved_m s')) \<le> unat (index_m (reserved_m s)) + length ops"
  using assms
proof (induction ops arbitrary: s held)
  case Nil
  then show ?case by simp
next
  case (Cons x xs)
  then have b: "unat (index_m (reserved_m s)) + 1 < 2 ^ 64" by simp
  from cursor_step [OF Cons.prems(1) b, of x held] obtain s1 h1 where
    s1: "step x (s, held) = Some (s1, h1)" "cursor_inv s1"
    "unat (index_m (reserved_m s1)) \<le> unat (index_m (reserved_m s)) + 1" by blast
  then have "unat (index_m (reserved_m s1)) + length xs < 2 ^ 64" using Cons.prems(2) by simp
  from Cons.IH [OF s1(2) this, of h1] obtain s' held' where
    "run (s1, h1) xs = Some (s', held')" "cursor_inv s'"
    "unat (index_m (reserved_m s')) \<le> unat (index_m (reserved_m s1)) + length xs"
    by blast
  then show ?case using s1 by auto
qed

lemma ObjectPool_cursor_inv:
  assumes "ObjectPool tsz buf sz = Inr s" "is_pow2 sz"
  shows "cursor_inv s" "unat (index_m (reserved_m s)) = unat sz"
proof -
  from ObjectPool_ok [OF assms(2), of tsz buf] assms(1) have
    s: "pool_wf s" "size_m s = sz" "consumed_m s = 0" "index_m (reserved_m s) = ucast sz"
    "\<forall>j<unat sz. control_m s ! j = \<lparr>data_index = of_nat j, slot_size = 1\<rparr>"
    by auto
  show P: "unat (index_m (reserved_m s)) = unat sz"
    by (simp only: s(4) unat_ucast_32_64)
  have "\<forall>i < unat sz. unat (of_nat i :: u64) = i"
    using unat_lt_2p32 [of sz] by (auto intro!: unat_of_nat_small)
  then show "cursor_inv s"
    using s P by (simp add: cursor_inv_def)
qed

text \<open>
  C6. From a pool constructed with a power-of-two capacity, every sequence of \<open>allocate\<close>
  and \<open>free\<close> calls, whatever their arguments, runs to its end and leaves the consumer
  cursor at or below the producer index, as long as the sequence is too short for the
  64-bit producer index to wrap around.
\<close>

theorem consumer_never_overtakes:
  assumes "is_pow2 sz" "unat sz + length ops < 2 ^ 64"
  shows "\<exists>s0 s held. ObjectPool tsz buf sz = Inr s0 \<and> run (s0, []) ops = Some (s, held) \<and>
           consumed_m s \<le> index_m (reserved_m s)"
proof -
  from ObjectPool_ok [OF assms(1), of tsz buf] obtain s0 where
    s0: "ObjectPool tsz buf sz = Inr s0" by blast
  have ci: "cursor_inv s0" and P: "unat (index_m (reserved_m s0)) = unat sz"
    using ObjectPool_cursor_inv [OF s0 assms(1)] by blast+
  from cursor_run [OF ci, of ops "[]"] assms(2) P obtain s held where
    "run (s0, []) ops = Some (s, held)" "cursor_inv s" by auto
  then show ?thesis using s0 by (auto simp: cursor_inv_def word_le_nat_alt)
qed

theorem consumer_never_overtakes_witness:
  "is_pow2 4 \<and>
   unat (4::u32) + length [Allocate 9000, Allocate 9000, Free 4104, Free 4104, Allocate 9000] < 2 ^ 64 \<and>
   (\<exists>s held. ObjectPool 8 4096 4 = Inr pool4 \<and>
      run (pool4, []) [Allocate 9000, Allocate 9000, Free 4104, Free 4104, Allocate 9000]
        = Some (s, held) \<and>
      held = [4112, 4096] \<and> consumed_m s = 3 \<and> index_m (reserved_m s) = 6 \<and>
      consumed_m s \<le> index_m (reserved_m s))"
proof -
  have p: "is_pow2 4" by (simp add: is_pow2_test)
  have l: "unat (4::u32) + length [Allocate 9000, Allocate 9000, Free 4104, Free 4104, Allocate 9000] < 2 ^ 64"
    by simp
  have c: "ObjectPool 8 4096 4 = Inr pool4" by code_simp
  have r: "run (pool4, []) [Allocate 9000, Allocate 9000, Free 4104, Free 4104, Allocate 9000]
     = Some (pool4\<lparr>reserved_m := \<lparr>index_m = 6, rsize_m = 1\<rparr>, consumed_m := 3,
          free_objects_m := [4104, 4104, 4112, 4120],
          control_m := [\<lparr>data_index = 4, slot_size = 1\<rparr>, \<lparr>data_index = 5, slot_size = 1\<rparr>,
                  \<lparr>data_index = 2, slot_size = 1\<rparr>, \<lparr>data_index = 3, slot_size = 1\<rparr>]\<rparr>, [4112, 4096])"
    by code_simp
  from consumer_never_overtakes [OF p l, of 8 4096] c r p l show ?thesis by simp
qed

subsection \<open>The bounds along a run\<close>

lemma consume_bounds:
  assumes "consume s = Some (r, s')"
  shows "lower_bound_m s' = lower_bound_m s \<and> upper_bound_m s' = upper_bound_m s"
proof -
  have "lower_bound_m (snd rs) = lower_bound_m s \<and> upper_bound_m (snd rs) = upper_bound_m s"
    if "consume s = Some rs" for rs
  proof (rule consume.raw_induct
      [where P = "\<lambda>s rs. lower_bound_m (snd rs) = lower_bound_m s \<and>
                          upper_bound_m (snd rs) = upper_bound_m s", OF _ that])
    fix c s rs
    assume IH: "\<And>x y. c x = Some y \<Longrightarrow>
        lower_bound_m (snd y) = lower_bound_m x \<and> upper_bound_m (snd y) = upper_bound_m x"
      and eq: "(case consume_body s of Inl r \<Rightarrow> Some r | Inr s' \<Rightarrow> c s') = Some rs"
    show "lower_bound_m (snd rs) = lower_bound_m s \<and> upper_bound_m (snd rs) = upper_bound_m s"
    proof (cases "consume_body s")
      case (Inl a)
      then show ?thesis using eq
        by (auto simp: consume_body_def Let_def split: if_splits)
    next
      case (Inr t)
      then have "c t = Some rs" using eq by simp
      from IH [OF this] Inr show ?thesis
        by (auto simp: consume_body_def Let_def split: if_splits)
    qed
  qed
  from this [of "(r, s')"] assms show ?thesis by simp
qed

lemma free_bounds:
  assumes "free p s = Inr (s', d)"
  shows "lower_bound_m s' = lower_bound_m s \<and> upper_bound_m s' = upper_bound_m s"
  using assms
  by (auto simp: free_def reserve_def publish_def Let_def split: if_splits sum.splits)

lemma step_bounds:
  assumes "step x (s, held) = Some (s', held')"
  shows "lower_bound_m s' = lower_bound_m s \<and> upper_bound_m s' = upper_bound_m s"
proof (cases x)
  case (Allocate a)
  with assms obtain r where "consume s = Some (r, s')"
    by (auto simp: allocate_def split: option.splits sum.splits prod.splits if_splits)
  then show ?thesis by (rule consume_bounds)
next
  case (Free p)
  with assms obtain d where "free p s = Inr (s', d)"
    by (auto split: sum.splits)
  then show ?thesis by (rule free_bounds)
qed

lemma run_bounds:
  assumes "run (s, held) ops = Some (s', held')"
  shows "lower_bound_m s' = lower_bound_m s \<and> upper_bound_m s' = upper_bound_m s"
  using assms
proof (induction ops arbitrary: s held)
  case Nil
  then show ?case by simp
next
  case (Cons x xs)
  then obtain s1 h1 where s1: "step x (s, held) = Some (s1, h1)" "run (s1, h1) xs = Some (s', held')"
    by (auto split: option.splits)
  from Cons.IH [OF s1(2)] step_bounds [OF s1(1)] show ?case by simp
qed

lemma ObjectPool_Inr_pow2: "ObjectPool tsz buf sz = Inr s \<Longrightarrow> is_pow2 sz"
  by (cases "sz \<noteq> 0 \<and> sz AND (sz - 1) = 0") (simp_all add: ObjectPool_def is_pow2_test Let_def)

lemma ObjectPool_bounds:
  assumes "ObjectPool tsz buf sz = Inr s"
  shows "lower_bound_m s = buf" "upper_bound_m s = buf + (int (unat sz) - 1) * int tsz"
    "0 < unat sz"
proof -
  have p: "is_pow2 sz" using assms by (rule ObjectPool_Inr_pow2)
  then have nz: "sz \<noteq> 0" by (simp add: is_pow2_test)
  then have "unat (sz - 1) = unat sz - 1" by (rule unat_minus_one)
  moreover show N: "0 < unat sz" using nz by (simp add: unat_gt_0)
  ultimately have "int (unat (sz - 1)) = int (unat sz) - 1" by simp
  with ObjectPool_ok [OF p, of tsz buf] assms
  show "lower_bound_m s = buf" "upper_bound_m s = buf + (int (unat sz) - 1) * int tsz"
    by auto
qed

lemma null_outside:
  assumes "layout_ok tsz buf sz" "ObjectPool tsz buf sz = Inr s"
  shows "\<not> in_bounds s 0"
proof -
  have t: "0 < int tsz" using assms(1) by (simp add: layout_ok_def)
  have "(int (unat sz) - 1) * int tsz = int (unat sz) * int tsz - int tsz"
    by (simp add: algebra_simps)
  then show ?thesis
    using assms(1) t ObjectPool_bounds [OF assms(2)]
    by (auto simp: layout_ok_def in_bounds_def)
qed

text \<open>
  C10. In every state that a pool constructed over a buffer off the null address
  reaches, the null address is outside the two bounds, and \<open>free(nullptr)\<close> takes the
  \<open>delete\<close> branch: it leaves every member of the pool as it is, and \<open>delete\<close> of the null
  pointer destroys nothing.
\<close>

theorem free_null_noop:
  assumes "layout_ok tsz buf sz" "ObjectPool tsz buf sz = Inr s0"
    and "run (s0, []) ops = Some (s, held)"
  shows "\<not> (lower_bound_m s \<le> 0 \<and> 0 \<le> upper_bound_m s) \<and>
         free 0 s = Inr (s, delete_T 0) \<and> delete_T 0 = None"
proof -
  have "\<not> in_bounds s 0"
    using null_outside [OF assms(1,2)] run_bounds [OF assms(3)] by (simp add: in_bounds_def)
  then show ?thesis
    using free_out_of_bounds [of s 0] by (simp add: in_bounds_def delete_T_def)
qed

theorem free_null_noop_witness:
  "layout_ok 8 4096 4 \<and> ObjectPool 8 4096 4 = Inr pool4 \<and>
   run (pool4, []) [Allocate 9000, Allocate 9000, Free 4096] =
     Some (pool4\<lparr>reserved_m := \<lparr>index_m = 5, rsize_m = 1\<rparr>, consumed_m := 2,
          control_m := (control_m pool4)[0 := \<lparr>data_index = 4, slot_size = 1\<rparr>]\<rparr>, [4104]) \<and>
   free 0 (pool4\<lparr>reserved_m := \<lparr>index_m = 5, rsize_m = 1\<rparr>, consumed_m := 2,
          control_m := (control_m pool4)[0 := \<lparr>data_index = 4, slot_size = 1\<rparr>]\<rparr>) =
     Inr (pool4\<lparr>reserved_m := \<lparr>index_m = 5, rsize_m = 1\<rparr>, consumed_m := 2,
          control_m := (control_m pool4)[0 := \<lparr>data_index = 4, slot_size = 1\<rparr>]\<rparr>, None)"
proof -
  have l: "layout_ok 8 4096 4" by (simp add: layout_ok_def)
  have c: "ObjectPool 8 4096 4 = Inr pool4" by code_simp
  have r: "run (pool4, []) [Allocate 9000, Allocate 9000, Free 4096] =
     Some (pool4\<lparr>reserved_m := \<lparr>index_m = 5, rsize_m = 1\<rparr>, consumed_m := 2,
          control_m := (control_m pool4)[0 := \<lparr>data_index = 4, slot_size = 1\<rparr>]\<rparr>, [4104])"
    by code_simp
  from free_null_noop [OF l c r] l c r show ?thesis by simp
qed

subsection \<open>\<open>allocate\<close>\<close>

lemma in_bounds_consumed_upd [simp]: "in_bounds (s\<lparr>consumed_m := c\<rparr>) p = in_bounds s p"
  by (simp add: in_bounds_def)

lemma in_bounds_put [simp]: "in_bounds (put q s) p = in_bounds s p"
  by (simp add: in_bounds_def)

lemma ptrs_consumed_upd: "ptrs_inv s \<Longrightarrow> ptrs_inv (s\<lparr>consumed_m := c\<rparr>)"
  by (simp add: ptrs_inv_def)

lemma ptrs_put:
  assumes "ptrs_inv s" "pool_wf s" "in_bounds s p"
  shows "ptrs_inv (put p s)"
  using assms by (simp add: ptrs_inv_def put_nth [OF assms(2)])

lemma ptrs_step:
  assumes "cursor_inv s" "ptrs_inv s" "step x (s, held) = Some (s', held')"
  shows "ptrs_inv s'"
proof (cases x)
  case (Allocate a)
  from cursor_allocate [OF assms(1), of a] obtain p t where
    a: "allocate a s = Some (Inr (p, t))" "t = s\<lparr>consumed_m := consumed_m t\<rparr>" by blast
  then have "s' = t" using assms(3) Allocate by simp
  then show ?thesis using a(2) ptrs_consumed_upd [OF assms(2), of "consumed_m t"] by simp
next
  case (Free p)
  have wf: "pool_wf s" using assms(1) by (simp add: cursor_inv_def)
  show ?thesis
  proof (cases "in_bounds s p")
    case True
    then show ?thesis
      using Free assms(3) free_in_bounds [OF wf True] ptrs_put [OF assms(2) wf True] by simp
  next
    case False
    then show ?thesis using Free assms(2,3) free_out_of_bounds [OF False] by simp
  qed
qed

lemma inv_run:
  assumes "cursor_inv s" "ptrs_inv s" "unat (index_m (reserved_m s)) + length ops < 2 ^ 64"
    and "run (s, held) ops = Some (s', held')"
  shows "cursor_inv s' \<and> ptrs_inv s'"
  using assms
proof (induction ops arbitrary: s held)
  case Nil
  then show ?case by simp
next
  case (Cons x xs)
  then have b: "unat (index_m (reserved_m s)) + 1 < 2 ^ 64" by simp
  from cursor_step [OF Cons.prems(1) b, of x held] obtain s1 h1 where
    s1: "step x (s, held) = Some (s1, h1)" "cursor_inv s1"
    "unat (index_m (reserved_m s1)) \<le> unat (index_m (reserved_m s)) + 1" by blast
  have p1: "ptrs_inv s1" using Cons.prems(1,2) s1(1) by (rule ptrs_step)
  have b1: "unat (index_m (reserved_m s1)) + length xs < 2 ^ 64"
    using s1(3) Cons.prems(3) by simp
  have "run (s1, h1) xs = Some (s', held')" using Cons.prems(4) s1(1) by simp
  from Cons.IH [OF s1(2) p1 b1 this] show ?case .
qed

lemma ObjectPool_ptrs_inv:
  assumes "layout_ok tsz buf sz" "ObjectPool tsz buf sz = Inr s"
  shows "ptrs_inv s"
proof -
  have p: "is_pow2 sz" using assms(2) by (rule ObjectPool_Inr_pow2)
  from ObjectPool_ok [OF p, of tsz buf] assms(2) have
    s: "size_m s = sz" "\<forall>j<unat sz. free_objects_m s ! j = buf + int j * int tsz" by auto
  note b = ObjectPool_bounds [OF assms(2)]
  have "in_bounds s (free_objects_m s ! j)" if "j < unat sz" for j
  proof -
    have "Suc j \<le> unat sz" using that by simp
    then have "int (Suc j) \<le> int (unat sz)" by (simp only: of_nat_le_iff)
    then have "int j \<le> int (unat sz) - 1" by simp
    then have "int j * int tsz \<le> (int (unat sz) - 1) * int tsz"
      by (intro mult_right_mono) simp_all
    then show ?thesis using s(2) that b by (simp add: in_bounds_def)
  qed
  then show ?thesis using null_outside [OF assms] s(1) by (simp add: ptrs_inv_def)
qed

text \<open>
  C3. In every state that a constructed pool reaches (before the 64-bit producer index
  wraps around), \<open>allocate()\<close> returns, without an error, a pointer that is not null.
  When \<open>consume\<close> yields a pointer, \<open>allocate\<close> returns it and it lies within the two
  bounds. When \<open>consume\<close> yields null, \<open>allocate\<close> returns the object that \<open>new T()\<close>
  creates, and that one, lying off the buffer, is outside the bounds.
\<close>

theorem allocate_never_null:
  assumes "layout_ok tsz buf sz" "unat sz + length ops < 2 ^ 64"
    and "ObjectPool tsz buf sz = Inr s0" "run (s0, []) ops = Some (s, held)"
    and "new_T \<noteq> 0"
    and "new_T + int tsz \<le> buf \<or> buf + int (unat sz) * int tsz \<le> new_T"
  shows "\<exists>obj n s' p. consume s = Some ((obj, n), s') \<and>
           allocate new_T s = Some (Inr (p, s')) \<and> p \<noteq> 0 \<and>
           (obj \<noteq> 0 \<longrightarrow> p = obj \<and> lower_bound_m s \<le> p \<and> p \<le> upper_bound_m s) \<and>
           (obj = 0 \<longrightarrow> p = new_T \<and> \<not> (lower_bound_m s \<le> p \<and> p \<le> upper_bound_m s))"
proof -
  have p2: "is_pow2 sz" using assms(3) by (rule ObjectPool_Inr_pow2)
  have "cursor_inv s0" "unat (index_m (reserved_m s0)) = unat sz"
    using ObjectPool_cursor_inv [OF assms(3) p2] by blast+
  moreover have "ptrs_inv s0" using assms(1,3) by (rule ObjectPool_ptrs_inv)
  ultimately have inv: "cursor_inv s" "ptrs_inv s"
    using inv_run [OF _ _ _ assms(4)] assms(2) by simp_all
  have wf: "pool_wf s" using inv(1) by (simp add: cursor_inv_def)
  note b0 = ObjectPool_bounds [OF assms(3)]
  have b: "lower_bound_m s = buf" "upper_bound_m s = buf + (int (unat sz) - 1) * int tsz"
    using run_bounds [OF assms(4)] b0 by simp_all
  have t: "0 < int tsz" using assms(1) by (simp add: layout_ok_def)
  have "(int (unat sz) - 1) * int tsz = int (unat sz) * int tsz - int tsz"
    by (simp add: algebra_simps)
  then have out: "\<not> in_bounds s new_T"
    using assms(6) t b by (auto simp: in_bounds_def)
  let ?j = "unat (consumed_m s) mod unat (size_m s)"
  let ?d = "data_index (control_m s ! ?j)"
  have j: "?j < unat (size_m s)" using capacity_pos [OF wf] by simp
  then have inb: "in_bounds s (free_objects_m s ! ?j)" using inv(2) by (simp add: ptrs_inv_def)
  then have nn: "free_objects_m s ! ?j \<noteq> 0" using inv(2) by (auto simp: ptrs_inv_def)
  show ?thesis
  proof (cases "?d < consumed_m s")
    case True
    then have "consume s = Some ((0, 0), s)"
      using cursor_consume [OF inv(1)] by (simp add: Let_def)
    then show ?thesis using assms(5) out by (simp add: allocate_def in_bounds_def)
  next
    case False
    then have "consume s = Some ((free_objects_m s ! ?j, 1), s\<lparr>consumed_m := ?d + 1\<rparr>)"
      using cursor_consume [OF inv(1)] by (simp add: Let_def)
    then show ?thesis using nn inb by (simp add: allocate_def in_bounds_def)
  qed
qed

theorem allocate_never_null_witness:
  "layout_ok 8 4096 4 \<and>
   unat (4::u32) + length [Allocate 9000, Allocate 9000, Allocate 9000, Allocate 9000] < 2 ^ 64 \<and>
   ObjectPool 8 4096 4 = Inr pool4 \<and>
   run (pool4, []) [Allocate 9000, Allocate 9000, Allocate 9000, Allocate 9000]
     = Some (pool4\<lparr>consumed_m := 4\<rparr>, [4120, 4112, 4104, 4096]) \<and>
   (9000::int) \<noteq> 0 \<and>
   (9000 + int 8 \<le> 4096 \<or> 4096 + int (unat (4::u32)) * int 8 \<le> (9000::int)) \<and>
   consume (pool4\<lparr>consumed_m := 4\<rparr>) = Some ((0, 0), pool4\<lparr>consumed_m := 4\<rparr>) \<and>
   allocate 9000 (pool4\<lparr>consumed_m := 4\<rparr>) = Some (Inr (9000, pool4\<lparr>consumed_m := 4\<rparr>)) \<and>
   \<not> (lower_bound_m (pool4\<lparr>consumed_m := 4\<rparr>) \<le> 9000 \<and>
      9000 \<le> upper_bound_m (pool4\<lparr>consumed_m := 4\<rparr>)) \<and>
   run (pool4, []) [] = Some (pool4, []) \<and>
   consume pool4 = Some ((4096, 1), pool4\<lparr>consumed_m := 1\<rparr>) \<and>
   allocate 9000 pool4 = Some (Inr (4096, pool4\<lparr>consumed_m := 1\<rparr>)) \<and>
   lower_bound_m pool4 \<le> 4096 \<and> 4096 \<le> upper_bound_m pool4"
proof -
  have l: "layout_ok 8 4096 4" by (simp add: layout_ok_def)
  have n: "unat (4::u32) + length [Allocate 9000, Allocate 9000, Allocate 9000, Allocate 9000]
      < 2 ^ 64" "unat (4::u32) + length ([] :: op list) < 2 ^ 64" by simp_all
  have c: "ObjectPool 8 4096 4 = Inr pool4" by code_simp
  have r: "run (pool4, []) [Allocate 9000, Allocate 9000, Allocate 9000, Allocate 9000]
     = Some (pool4\<lparr>consumed_m := 4\<rparr>, [4120, 4112, 4104, 4096])" by code_simp
  have r0: "run (pool4, []) [] = Some (pool4, [])" by simp
  have a: "(9000::int) \<noteq> 0"
    "9000 + int 8 \<le> 4096 \<or> 4096 + int (unat (4::u32)) * int 8 \<le> (9000::int)" by simp_all
  have e: "consume (pool4\<lparr>consumed_m := 4\<rparr>) = Some ((0, 0), pool4\<lparr>consumed_m := 4\<rparr>)"
    "consume pool4 = Some ((4096, 1), pool4\<lparr>consumed_m := 1\<rparr>)" by code_simp+
  from allocate_never_null [OF l n(1) c r a] e(1)
  have "allocate 9000 (pool4\<lparr>consumed_m := 4\<rparr>) = Some (Inr (9000, pool4\<lparr>consumed_m := 4\<rparr>))"
    "\<not> (lower_bound_m (pool4\<lparr>consumed_m := 4\<rparr>) \<le> 9000 \<and>
      9000 \<le> upper_bound_m (pool4\<lparr>consumed_m := 4\<rparr>))"
    by auto
  moreover from allocate_never_null [OF l n(2) c r0 a] e(2)
  have "allocate 9000 pool4 = Some (Inr (4096, pool4\<lparr>consumed_m := 1\<rparr>))"
    "lower_bound_m pool4 \<le> 4096 \<and> 4096 \<le> upper_bound_m pool4"
    by auto
  ultimately show ?thesis using l n c r r0 a e by blast
qed

subsection \<open>Every pooled object exactly once\<close>

lemma mod_eq_close:
  assumes "a \<le> b" "b < a + N" "a mod N = b mod (N::nat)"
  shows "a = b"
proof (rule ccontr)
  assume "a \<noteq> b"
  then have pos: "0 < b - a" using assms(1) by simp
  have "b mod N = a mod N" using assms(3) by simp
  then have "N dvd b - a" using mod_eq_dvd_iff_nat [OF assms(1), of N] by blast
  then have "N \<le> b - a" using pos by (rule dvd_imp_le)
  then show False using assms(1,2) by arith
qed

lemma readable_iff:
  assumes "cursor_inv s" "i < unat (size_m s)"
  shows "readable s i \<longleftrightarrow> unat (consumed_m s) \<le> unat (data_index (control_m s ! i))"
proof -
  have wf: "pool_wf s" using assms(1) by (simp add: cursor_inv_def)
  from assms have d: "unat (data_index (control_m s ! i)) mod unat (size_m s) = i"
    "unat (data_index (control_m s ! i)) < unat (index_m (reserved_m s))"
    by (simp_all add: cursor_inv_def)
  have "data_index (control_m s ! i) \<noteq> UINT64_MAX"
    using d(2) by (intro below_not_max [of _ "index_m (reserved_m s)"]) (simp add: word_less_nat_alt)
  then show ?thesis
    using d(1) by (simp add: readable_def slot_mod [OF wf] word_le_nat_alt)
qed

lemma published_mset:
  "mset (published s) =
     image_mset (\<lambda>i. free_objects_m s ! i) (mset_set {i \<in> {0 ..< unat (size_m s)}. readable s i})"
  by (simp add: published_def)

lemma published_remove:
  assumes "j < unat (size_m s)" "readable s j"
    and "free_objects_m s' = free_objects_m s" "size_m s' = size_m s"
    and "\<And>i. i < unat (size_m s) \<Longrightarrow> readable s' i \<longleftrightarrow> readable s i \<and> i \<noteq> j"
  shows "mset (published s) = add_mset (free_objects_m s ! j) (mset (published s'))"
proof -
  let ?A = "{i \<in> {0 ..< unat (size_m s)}. readable s i}"
  let ?B = "{i \<in> {0 ..< unat (size_m s)}. readable s' i}"
  have "?A = insert j ?B" using assms(1,2,5) by auto
  moreover have "j \<notin> ?B" using assms(1,5) by simp
  moreover have "finite ?B" by simp
  ultimately have "mset_set ?A = add_mset j (mset_set ?B)" by simp
  then show ?thesis by (simp add: published_mset assms(3,4))
qed

lemma published_insert:
  assumes "j < unat (size_m s)" "\<not> readable s j" "size_m s' = size_m s"
    and "\<And>i. i < unat (size_m s) \<Longrightarrow>
           free_objects_m s' ! i = (if i = j then p else free_objects_m s ! i)"
    and "\<And>i. i < unat (size_m s) \<Longrightarrow> readable s' i \<longleftrightarrow> readable s i \<or> i = j"
  shows "mset (published s') = add_mset p (mset (published s))"
proof -
  let ?A = "{i \<in> {0 ..< unat (size_m s)}. readable s i}"
  let ?B = "{i \<in> {0 ..< unat (size_m s)}. readable s' i}"
  have "?B = insert j ?A" using assms(1,5) by auto
  moreover have "j \<notin> ?A" using assms(2) by simp
  moreover have "finite ?A" by simp
  ultimately have B: "mset_set ?B = add_mset j (mset_set ?A)" by simp
  have "image_mset (\<lambda>i. free_objects_m s' ! i) (mset_set ?A) =
        image_mset (\<lambda>i. free_objects_m s ! i) (mset_set ?A)"
    using assms(2,4) by (intro image_mset_cong) auto
  then have c: "image_mset (\<lambda>i. free_objects_m s' ! i) (mset_set ?A) = mset (published s)"
    by (simp only: published_mset)
  have "mset (published s') = image_mset (\<lambda>i. free_objects_m s' ! i) (mset_set ?B)"
    by (simp only: published_mset assms(3))
  also have "\<dots> = add_mset (free_objects_m s' ! j)
      (image_mset (\<lambda>i. free_objects_m s' ! i) (mset_set ?A))"
    by (simp only: B image_mset_add_mset)
  also have "\<dots> = add_mset p (mset (published s))"
    using assms(4) [OF assms(1)] by (simp only: c) simp
  finally show ?thesis .
qed

lemma storage_consumed_upd [simp]: "storage tsz (s\<lparr>consumed_m := c\<rparr>) = storage tsz s"
  by (simp add: storage_def)

lemma storage_put [simp]: "storage tsz (put p s) = storage tsz s"
  by (simp add: storage_def)

lemma distinct_storage: "0 < tsz \<Longrightarrow> distinct (storage tsz s)"
  by (auto simp: storage_def distinct_map intro!: inj_onI)

lemma exact_allocate:
  assumes "exact_inv tsz s held" "a \<noteq> 0" "\<not> in_bounds s a" "a \<notin> set held"
  shows "\<exists>p s'. allocate a s = Some (Inr (p, s')) \<and> exact_inv tsz s' (p # held) \<and>
           index_m (reserved_m s') = index_m (reserved_m s) \<and>
           buffer_m s' = buffer_m s \<and> size_m s' = size_m s"
proof -
  let ?N = "unat (size_m s)"
  let ?P = "unat (index_m (reserved_m s))"
  let ?C = "unat (consumed_m s)"
  let ?j = "?C mod ?N"
  let ?d = "data_index (control_m s ! ?j)"
  from assms(1) have ci: "cursor_inv s" and pi: "ptrs_inv s" and t: "0 < tsz"
    and PC: "?P \<le> ?C + ?N"
    and ms: "mset (published s) + mset (filter (in_bounds s) held) = mset (storage tsz s)"
    and len: "length (published s) = ?P - ?C" and dist: "distinct held"
    by (simp_all add: exact_inv_def)
  have wf: "pool_wf s" using ci by (simp add: cursor_inv_def)
  have j: "?j < ?N" using capacity_pos [OF wf] by simp
  with ci have dj: "unat ?d mod ?N = ?j" "unat ?d < ?P" by (simp_all add: cursor_inv_def)
  show ?thesis
  proof (cases "?d < consumed_m s")
    case True
    then have "consume s = Some ((0, 0), s)"
      using cursor_consume [OF ci] by (simp add: Let_def)
    then have "allocate a s = Some (Inr (a, s))" by (simp add: allocate_def)
    moreover have "exact_inv tsz s (a # held)"
      using assms by (simp add: exact_inv_def)
    ultimately show ?thesis by simp
  next
    case False
    let ?obj = "free_objects_m s ! ?j"
    let ?s' = "s\<lparr>consumed_m := ?d + 1\<rparr>"
    have c: "consume s = Some ((?obj, 1), ?s')"
      using False cursor_consume [OF ci] by (simp add: Let_def)
    have inb: "in_bounds s ?obj" using pi j by (simp add: ptrs_inv_def)
    then have nn: "?obj \<noteq> 0" using pi by (auto simp: ptrs_inv_def)
    have a: "allocate a s = Some (Inr (?obj, ?s'))" using c nn by (simp add: allocate_def)
    have Cd: "?C \<le> unat ?d" using False by (simp add: not_less word_le_nat_alt)
    have dC: "unat ?d = ?C"
      using Cd dj PC by (intro mod_eq_close [of ?C "unat ?d" ?N, symmetric]) simp_all
    have C1: "unat (?d + 1) = ?C + 1"
      using unat_succ [OF dj(2) unat_index_lt] dC by simp
    have ci': "cursor_inv ?s'"
      using ci dj(2) C1 dC by (intro cursor_consumed_upd) simp_all
    have rj: "readable s ?j" using readable_iff [OF ci j] dC by simp
    have r': "readable ?s' i \<longleftrightarrow> readable s i \<and> i \<noteq> ?j" if "i < ?N" for i
    proof -
      have di: "unat (data_index (control_m s ! i)) mod ?N = i"
        using ci that by (simp add: cursor_inv_def)
      have "readable ?s' i \<longleftrightarrow> ?C + 1 \<le> unat (data_index (control_m s ! i))"
        using readable_iff [OF ci', of i] that C1 by simp
      moreover have "readable s i \<longleftrightarrow> ?C \<le> unat (data_index (control_m s ! i))"
        using readable_iff [OF ci that] .
      moreover have "unat (data_index (control_m s ! i)) = ?C \<longleftrightarrow> i = ?j"
        using di dC by auto
      ultimately show ?thesis by auto
    qed
    have pm: "mset (published s) = add_mset ?obj (mset (published ?s'))"
      using j rj _ _ r' by (rule published_remove) simp_all
    then have "size (mset (published s)) = Suc (size (mset (published ?s')))" by simp
    then have len': "length (published ?s') = ?P - (?C + 1)" using len by simp
    have "count (mset (storage tsz s)) ?obj \<le> 1"
      using distinct_storage [OF t, of s] by (simp add: distinct_count_atmost_1)
    then have "count (mset (filter (in_bounds s) held)) ?obj = 0"
      using pm ms [symmetric] by simp
    then have nh: "?obj \<notin> set held" using inb by (simp add: count_eq_zero_iff)
    have "mset (published ?s') + mset (filter (in_bounds ?s') (?obj # held)) = mset (storage tsz ?s')"
      using ms pm inb by simp
    then have "exact_inv tsz ?s' (?obj # held)"
      using assms(1) ci' ptrs_consumed_upd [OF pi] len' nh C1 dj(2) dC
      by (simp add: exact_inv_def)
    then show ?thesis using a by simp
  qed
qed

lemma exact_free:
  assumes "exact_inv tsz s held" "p \<in> set held"
    and "unat (index_m (reserved_m s)) + 1 < 2 ^ 64"
  shows "\<exists>s' d. free p s = Inr (s', d) \<and> exact_inv tsz s' (remove1 p held) \<and>
           unat (index_m (reserved_m s')) \<le> unat (index_m (reserved_m s)) + 1 \<and>
           buffer_m s' = buffer_m s \<and> size_m s' = size_m s"
proof (cases "in_bounds s p")
  case False
  then have "filter (in_bounds s) (remove1 p held) = filter (in_bounds s) held"
    by (simp add: filter_remove1)
  then have "exact_inv tsz s (remove1 p held)"
    using assms(1) by (simp add: exact_inv_def)
  then show ?thesis using free_out_of_bounds [OF False] by simp
next
  case True
  let ?N = "unat (size_m s)"
  let ?P = "unat (index_m (reserved_m s))"
  let ?C = "unat (consumed_m s)"
  let ?j = "?P mod ?N"
  let ?s' = "put p s"
  from assms(1) have ci: "cursor_inv s" and pi: "ptrs_inv s" and t: "0 < tsz"
    and lap: "\<forall>i < ?N. ?P \<le> unat (data_index (control_m s ! i)) + ?N"
    and ms: "mset (published s) + mset (filter (in_bounds s) held) = mset (storage tsz s)"
    and len: "length (published s) = ?P - ?C" and dist: "distinct held"
    by (simp_all add: exact_inv_def)
  have wf: "pool_wf s" using ci by (simp add: cursor_inv_def)
  have CP: "?C \<le> ?P" using ci by (simp add: cursor_inv_def)
  have j: "?j < ?N" using capacity_pos [OF wf] by simp
  have slots: "unat (data_index (control_m s ! i)) mod ?N = i"
    "unat (data_index (control_m s ! i)) < ?P" if "i < ?N" for i
    using ci that by (simp_all add: cursor_inv_def)
  have P1: "unat (index_m (reserved_m s) + 1) = ?P + 1"
    using assms(3) by (simp add: unat_word_ariths)
  have pin: "p \<in># mset (filter (in_bounds s) held)" using assms(2) True by simp
  then have "0 < size (mset (filter (in_bounds s) held))"
    by (metis size_eq_0_iff_empty empty_iff set_mset_empty neq0_conv)
  moreover have "size (mset (published s)) + size (mset (filter (in_bounds s) held)) = ?N"
    using arg_cong [OF ms, of size] by (simp add: storage_def)
  ultimately have PC: "?P < ?C + ?N" using len CP by simp
  have lapj: "?P = unat (data_index (control_m s ! ?j)) + ?N"
    using lap j slots [OF j]
    by (intro mod_eq_close [of ?P _ ?N]) simp_all
  have nr: "\<not> readable s ?j" using readable_iff [OF ci j] lapj PC by simp
  have ci': "cursor_inv ?s'" using ci assms(3) by (rule cursor_put)
  have pi': "ptrs_inv ?s'" using pi wf True by (rule ptrs_put)
  have d': "unat (data_index (control_m ?s' ! i)) =
      (if i = ?j then ?P else unat (data_index (control_m s ! i)))" if "i < ?N" for i
    using put_nth(1) [OF wf that, of p] by simp
  have r': "readable ?s' i \<longleftrightarrow> readable s i \<or> i = ?j" if "i < ?N" for i
    using readable_iff [OF ci', of i] readable_iff [OF ci that] d' [OF that] that CP by auto
  have pm: "mset (published ?s') = add_mset p (mset (published s))"
    using j nr _ put_nth(2) [OF wf] r' by (rule published_insert) simp_all
  then have "size (mset (published ?s')) = Suc (size (mset (published s)))" by simp
  then have len': "length (published ?s') = ?P + 1 - ?C" using len CP by simp
  have lap': "?P + 1 \<le> unat (data_index (control_m ?s' ! i)) + ?N" if "i < ?N" for i
  proof (cases "i = ?j")
    case True
    then show ?thesis using d' [OF that] j by simp
  next
    case False
    have "?P \<noteq> unat (data_index (control_m s ! i)) + ?N"
    proof
      assume "?P = unat (data_index (control_m s ! i)) + ?N"
      then have "?P mod ?N = unat (data_index (control_m s ! i)) mod ?N" by simp
      then show False using slots(1) [OF that] False by simp
    qed
    then show ?thesis using lap that False d' [OF that] by (simp add: le_neq_implies_less Suc_le_eq)
  qed
  let ?F = "mset (filter (in_bounds s) held)"
  have e2: "mset (filter (in_bounds ?s') (remove1 p held)) = ?F - {#p#}"
    by (simp add: filter_remove1)
  have e3: "add_mset p (?F - {#p#}) = ?F" using pin by (rule insert_DiffM)
  have "add_mset p (mset (published s)) + (?F - {#p#}) =
      mset (published s) + add_mset p (?F - {#p#})"
    by (simp only: union_mset_add_mset_left union_mset_add_mset_right)
  then have "mset (published ?s') + mset (filter (in_bounds ?s') (remove1 p held)) =
      mset (published s) + ?F"
    by (simp only: pm e2 e3)
  then have "mset (published ?s') + mset (filter (in_bounds ?s') (remove1 p held)) =
      mset (storage tsz ?s')"
    by (simp only: ms storage_put)
  then have "exact_inv tsz ?s' (remove1 p held)"
    using assms(1) ci' pi' len' lap' PC P1 dist
    by (simp add: exact_inv_def)
  then show ?thesis using free_in_bounds [OF wf True] P1 by simp
qed

lemma exact_run:
  assumes "exact_inv tsz s held" "unat (index_m (reserved_m s)) + length ops < 2 ^ 64"
    and "valid_ops (s, held) ops"
  shows "\<exists>s' held'. run (s, held) ops = Some (s', held') \<and> exact_inv tsz s' held' \<and>
           buffer_m s' = buffer_m s \<and> size_m s' = size_m s"
  using assms
proof (induction ops arbitrary: s held)
  case Nil
  then show ?case by simp
next
  case (Cons x xs)
  have b: "unat (index_m (reserved_m s)) + 1 < 2 ^ 64" using Cons.prems(2) by simp
  have "\<exists>s1 h1. step x (s, held) = Some (s1, h1) \<and> exact_inv tsz s1 h1 \<and>
      unat (index_m (reserved_m s1)) \<le> unat (index_m (reserved_m s)) + 1 \<and>
      buffer_m s1 = buffer_m s \<and> size_m s1 = size_m s"
  proof (cases x)
    case (Allocate a)
    then have "a \<noteq> 0" "\<not> in_bounds s a" "a \<notin> set held" using Cons.prems(3) by simp_all
    from exact_allocate [OF Cons.prems(1) this] show ?thesis using Allocate by auto
  next
    case (Free p)
    then have "p \<in> set held" using Cons.prems(3) by simp
    from exact_free [OF Cons.prems(1) this b] show ?thesis using Free by auto
  qed
  then obtain s1 h1 where s1: "step x (s, held) = Some (s1, h1)" "exact_inv tsz s1 h1"
    "unat (index_m (reserved_m s1)) \<le> unat (index_m (reserved_m s)) + 1"
    "buffer_m s1 = buffer_m s" "size_m s1 = size_m s" by blast
  have "unat (index_m (reserved_m s1)) + length xs < 2 ^ 64" using s1(3) Cons.prems(2) by simp
  moreover have "valid_ops (s1, h1) xs" using Cons.prems(3) s1(1) by simp
  ultimately obtain s' held' where "run (s1, h1) xs = Some (s', held')" "exact_inv tsz s' held'"
    "buffer_m s' = buffer_m s1" "size_m s' = size_m s1"
    using Cons.IH [OF s1(2)] by blast
  then show ?case using s1 by simp
qed

lemma ObjectPool_exact:
  assumes "layout_ok tsz buf sz" "ObjectPool tsz buf sz = Inr s"
  shows "exact_inv tsz s []"
proof -
  have p: "is_pow2 sz" using assms(2) by (rule ObjectPool_Inr_pow2)
  from ObjectPool_ok [OF p, of tsz buf] assms(2) have
    s: "size_m s = sz" "buffer_m s = buf" "consumed_m s = 0"
    "\<forall>j<unat sz. control_m s ! j = \<lparr>data_index = of_nat j, slot_size = 1\<rparr> \<and>
                  free_objects_m s ! j = buf + int j * int tsz" by auto
  have ci: "cursor_inv s" and P: "unat (index_m (reserved_m s)) = unat sz"
    using ObjectPool_cursor_inv [OF assms(2) p] by blast+
  have pi: "ptrs_inv s" using assms by (rule ObjectPool_ptrs_inv)
  note b = ObjectPool_bounds [OF assms(2)]
  have "readable s i" if "i < unat sz" for i
    using readable_iff [OF ci, of i] that s(1,3) by simp
  then have "filter (readable s) [0 ..< unat sz] = [0 ..< unat sz]"
    by (intro filter_True) simp
  then have pub: "published s = storage tsz s"
    using s by (simp add: published_def storage_def)
  show ?thesis
    using ci pi assms(1) b s(1,2,3) P pub
    by (simp add: exact_inv_def layout_ok_def storage_def)
qed

text \<open>
  Calls that do not overlap keep every pooled object exactly once: from a pool
  constructed over a buffer off the null address, any sequence of \<open>allocate\<close> calls and
  of \<open>free\<close> calls on pointers that \<open>allocate\<close> returned and \<open>free\<close> has not yet taken
  back (short of the wrap of the 64-bit producer index) reaches its end, every pooled
  object \<open>&buffer_m[k]\<close>, \<open>k < sz\<close>, then occurs exactly once among the published entries
  of the ring and the pointers handed out, and no pointer is handed out twice.
\<close>

lemma exactly_once_sequential:
  assumes "layout_ok tsz buf sz" "unat sz + length ops < 2 ^ 64"
    and "ObjectPool tsz buf sz = Inr s0" "valid_ops (s0, []) ops"
  shows "\<exists>s held. run (s0, []) ops = Some (s, held) \<and>
           (\<forall>k < unat sz. count_list (published s @ held) (buf + int k * int tsz) = 1) \<and>
           distinct held"
proof -
  have p: "is_pow2 sz" using assms(3) by (rule ObjectPool_Inr_pow2)
  have e0: "exact_inv tsz s0 []" using assms(1,3) by (rule ObjectPool_exact)
  have P: "unat (index_m (reserved_m s0)) = unat sz"
    using ObjectPool_cursor_inv [OF assms(3) p] by blast
  from ObjectPool_ok [OF p, of tsz buf] assms(3) have s0: "size_m s0 = sz" "buffer_m s0 = buf"
    by auto
  from exact_run [OF e0 _ assms(4)] assms(2) P obtain s held where
    r: "run (s0, []) ops = Some (s, held)" and e: "exact_inv tsz s held"
    and f: "buffer_m s = buf" "size_m s = sz" using s0 by auto
  from e have t: "0 < tsz"
    and lo: "lower_bound_m s = buf" and hi: "upper_bound_m s = buf + (int (unat sz) - 1) * int tsz"
    and ms: "mset (published s) + mset (filter (in_bounds s) held) = mset (storage tsz s)"
    and dist: "distinct held"
    by (simp_all add: exact_inv_def f)
  have "count_list (published s @ held) (buf + int k * int tsz) = 1" if "k < unat sz" for k
  proof -
    let ?a = "buf + int k * int tsz"
    have "Suc k \<le> unat sz" using that by simp
    then have "int (Suc k) \<le> int (unat sz)" by (simp only: of_nat_le_iff)
    then have "int k \<le> int (unat sz) - 1" by simp
    then have "int k * int tsz \<le> (int (unat sz) - 1) * int tsz"
      by (intro mult_right_mono) simp_all
    then have inb: "in_bounds s ?a" using lo hi by (simp add: in_bounds_def)
    have "?a \<in> set (storage tsz s)" using that by (auto simp: storage_def f)
    then have "count (mset (storage tsz s)) ?a = 1"
      using distinct_storage [OF t, of s] by (simp add: distinct_count_atmost_1)
    then have "count (mset (published s)) ?a + count (mset (filter (in_bounds s) held)) ?a = 1"
      using ms [symmetric] by simp
    then have "count (mset (published s)) ?a + count (mset held) ?a = 1"
      using inb by simp
    then show ?thesis by (simp add: count_mset)
  qed
  then show ?thesis using r dist by blast
qed

lemma exactly_once_sequential_example:
  "layout_ok 8 4096 4 \<and>
   unat (4::u32) + length [Allocate 9000, Allocate 9000, Free 4096, Allocate 9000, Allocate 9000,
      Allocate 9000, Allocate 9000, Free 9000, Free 4112] < 2 ^ 64 \<and>
   ObjectPool 8 4096 4 = Inr pool4 \<and>
   valid_ops (pool4, []) [Allocate 9000, Allocate 9000, Free 4096, Allocate 9000, Allocate 9000,
      Allocate 9000, Allocate 9000, Free 9000, Free 4112] \<and>
   (\<exists>s held. run (pool4, []) [Allocate 9000, Allocate 9000, Free 4096, Allocate 9000,
        Allocate 9000, Allocate 9000, Allocate 9000, Free 9000, Free 4112] = Some (s, held) \<and>
      published s = [4112] \<and> held = [4096, 4120, 4104] \<and>
      (\<forall>k < unat (4::u32). count_list (published s @ held) (4096 + int k * int 8) = 1) \<and>
      distinct held)"
proof -
  let ?ops = "[Allocate 9000, Allocate 9000, Free 4096, Allocate 9000, Allocate 9000,
      Allocate 9000, Allocate 9000, Free 9000, Free 4112]"
  let ?s = "pool4\<lparr>reserved_m := \<lparr>index_m = 6, rsize_m = 1\<rparr>, consumed_m := 5,
      free_objects_m := [4096, 4112, 4112, 4120],
      control_m := [\<lparr>data_index = 4, slot_size = 1\<rparr>, \<lparr>data_index = 5, slot_size = 1\<rparr>,
                    \<lparr>data_index = 2, slot_size = 1\<rparr>, \<lparr>data_index = 3, slot_size = 1\<rparr>]\<rparr>"
  have l: "layout_ok 8 4096 4" by (simp add: layout_ok_def)
  have n: "unat (4::u32) + length ?ops < 2 ^ 64" by simp
  have c: "ObjectPool 8 4096 4 = Inr pool4" by code_simp
  have v: "valid_ops (pool4, []) ?ops" by code_simp
  have r: "run (pool4, []) ?ops = Some (?s, [4096, 4120, 4104])" by code_simp
  have p: "published ?s = [4112]" by code_simp
  from exactly_once_sequential [OF l n c v] r p
  have "(\<forall>k < unat (4::u32). count_list (published ?s @ [4096, 4120, 4104])
            (4096 + int k * int 8) = 1) \<and> distinct [4096, 4120, 4104 :: int]"
    by auto
  with l n c v r p show ?thesis by blast
qed

subsection \<open>The CAS and the loads of \<open>consume\<close>\<close>

lemma consume_body_split:
  "consume_body s =
     (case consume_cas_body s of
        Inl (cp, s') \<Rightarrow> Inl (consume_load cp s', s')
      | Inr s' \<Rightarrow> Inr s')"
  by (simp add: consume_body_def consume_cas_body_def consume_load_def Let_def)

lemma consume_cas_imp_consume:
  assumes "consume_cas s = Some (cp, s')"
  shows "consume s = Some (consume_load cp s', s')"
proof -
  have "consume s = Some (consume_load (fst r) (snd r), snd r)" if "consume_cas s = Some r" for r
  proof (rule consume_cas.raw_induct
      [where P = "\<lambda>s r. consume s = Some (consume_load (fst r) (snd r), snd r)", OF _ that])
    fix c s r
    assume IH: "\<And>x y. c x = Some y \<Longrightarrow> consume x = Some (consume_load (fst y) (snd y), snd y)"
      and eq: "(case consume_cas_body s of Inl r \<Rightarrow> Some r | Inr s' \<Rightarrow> c s') = Some r"
    show "consume s = Some (consume_load (fst r) (snd r), snd r)"
    proof (cases "consume_cas_body s")
      case (Inl a)
      then have "consume_body s = Inl (consume_load (fst r) (snd r), snd r)"
        using eq by (auto simp: consume_body_split split: prod.splits)
      then show ?thesis by (rule consume_return)
    next
      case (Inr t)
      then have "c t = Some r" using eq by simp
      moreover have "consume_body s = Inr t" using Inr by (simp add: consume_body_split)
      ultimately show ?thesis using IH consume_continue by simp
    qed
  qed
  from this [OF assms] show ?thesis by simp
qed

lemma consume_imp_consume_cas:
  assumes "consume s = Some r"
  shows "\<exists>cp s'. consume_cas s = Some (cp, s') \<and> r = (consume_load cp s', s')"
proof (rule consume.raw_induct
    [where P = "\<lambda>s r. \<exists>cp s'. consume_cas s = Some (cp, s') \<and> r = (consume_load cp s', s')",
      OF _ assms])
  fix c s r
  assume IH: "\<And>x y. c x = Some y \<Longrightarrow>
      \<exists>cp s'. consume_cas x = Some (cp, s') \<and> y = (consume_load cp s', s')"
    and eq: "(case consume_body s of Inl r \<Rightarrow> Some r | Inr s' \<Rightarrow> c s') = Some r"
  show "\<exists>cp s'. consume_cas s = Some (cp, s') \<and> r = (consume_load cp s', s')"
  proof (cases "consume_cas_body s")
    case (Inl a)
    then have "consume_cas s = Some a" by (subst consume_cas.simps) simp
    moreover have "r = (consume_load (fst a) (snd a), snd a)"
      using Inl eq by (auto simp: consume_body_split split: prod.splits)
    ultimately show ?thesis by (cases a) auto
  next
    case (Inr t)
    then have "consume_cas s = consume_cas t" by (subst consume_cas.simps) simp
    moreover have "c t = Some r" using Inr eq by (simp add: consume_body_split)
    ultimately show ?thesis using IH by simp
  qed
qed

lemma allocate_split:
  "allocate a s =
     (case consume_cas s of
        None \<Rightarrow> None
      | Some (cp, s') \<Rightarrow>
          (case allocate_finish a cp s' of
             Inl e \<Rightarrow> Some (Inl e)
           | Inr p \<Rightarrow> Some (Inr (p, s'))))"
proof (cases "consume_cas s")
  case None
  have "consume s = None"
  proof (cases "consume s")
    case (Some r)
    from consume_imp_consume_cas [OF this] None show ?thesis by simp
  qed simp
  then show ?thesis using None by (simp add: allocate_def)
next
  case (Some r)
  obtain cp s' where r: "r = (cp, s')" by (cases r)
  from consume_cas_imp_consume [of s cp s'] Some r
  have "consume s = Some (consume_load cp s', s')" by simp
  then show ?thesis using Some r
    by (simp add: allocate_def allocate_finish_def split: prod.splits)
qed

lemma claim_finish_is_allocate:
  "irun (s, held, None) [Claim, Finish a] =
     (case step (Allocate a) (s, held) of
        None \<Rightarrow> None
      | Some (s', held') \<Rightarrow> Some (s', held', None))"
  by (simp add: allocate_split split: option.splits sum.splits prod.splits)

text \<open>
  C7. When calls overlap, a pooled object can be handed out twice and another be lost.
  On the pool of two objects, let one thread win the CAS of \<open>consume\<close> inside \<open>allocate\<close>
  (the consumer cursor goes from 0 to 1) and wait before it loads
  \<open>free_objects_m[current_index & mask_m]\<close>; let another thread call \<open>allocate\<close>, which
  returns \<open>&buffer_m[1] = 4104\<close>, and \<open>free(4104)\<close>, which reserves index 2 and so stores
  4104 on slot 0. The first thread then loads 4104 from slot 0 and returns it, and the
  next \<open>allocate\<close> consumes index 2 and returns 4104 again. Every \<open>free\<close> in the schedule
  is of a pointer handed out and not yet freed. At the end 4104 is held twice, and
  \<open>&buffer_m[0] = 4096\<close> is neither published in the ring nor held.
\<close>

theorem overlapping_calls_duplicate:
  "ObjectPool 8 4096 2 = Inr pool2 \<and>
   valid_events (pool2, [], None) overlap_schedule \<and>
   irun (pool2, [], None) [Claim, Call (Allocate 9000), Call (Free 4104)] =
     Some (pool2\<lparr>reserved_m := \<lparr>index_m = 3, rsize_m = 1\<rparr>, consumed_m := 2,
             free_objects_m := [4104, 4104],
             control_m := [\<lparr>data_index = 2, slot_size = 1\<rparr>, \<lparr>data_index = 1, slot_size = 1\<rparr>]\<rparr>,
           [], Some (Claimed 0)) \<and>
   irun (pool2, [], None) overlap_schedule =
     Some (pool2\<lparr>reserved_m := \<lparr>index_m = 3, rsize_m = 1\<rparr>, consumed_m := 3,
             free_objects_m := [4104, 4104],
             control_m := [\<lparr>data_index = 2, slot_size = 1\<rparr>, \<lparr>data_index = 1, slot_size = 1\<rparr>]\<rparr>,
           [4104, 4104], None) \<and>
   published (pool2\<lparr>reserved_m := \<lparr>index_m = 3, rsize_m = 1\<rparr>, consumed_m := 3,
             free_objects_m := [4104, 4104],
             control_m := [\<lparr>data_index = 2, slot_size = 1\<rparr>, \<lparr>data_index = 1, slot_size = 1\<rparr>]\<rparr>)
     = [] \<and>
   count_list ([] @ [4104, 4104 :: int]) 4096 = 0 \<and>
   count_list ([] @ [4104, 4104 :: int]) 4104 = 2"
  by code_simp

end
